theory Spec2Isabelle
  imports Main "HOL-Library.AList"
begin

section \<open>Values, objects and the heap\<close>

text \<open>
  The library manipulates JavaScript objects that are shared by reference (a class is a
  function object, its static members are that object's own properties, its instance
  members live on its \<open>prototype\<close> object). The model therefore uses an explicit heap:
  a list of objects, an address being an index into it.

  Modelling assumptions, stated once:
  \<^item> every property that a heap lists is a plain writable data property: there are no
    getters or setters, and the accessor \<open>__proto__\<close> is not modelled;
  \<^item> the built-in members of \<open>Object.prototype\<close> and \<open>Function.prototype\<close> are not part
    of the heap: a prototype chain ends at \<open>null\<close>;
  \<^item> the built-in members \<open>name\<close>, \<open>length\<close>, \<open>arguments\<close> and \<open>caller\<close> of a function
    are not listed either and their values are not modelled, but strict-mode code cannot
    assign them (\<open>writable\<close> below);
  \<^item> a function renders as its source text, any other object as \<open>[object Object]\<close>.
\<close>

type_synonym addr = nat

datatype val = VUndef | VNull | VBool bool | VNum int | VStr string | VRef addr

text \<open>
  The bodies of user-supplied functions, as far as the development needs them: a small
  fragment of JavaScript expressions and statements over the receiver \<open>this\<close>.
  \<open>Attempt e\<close> is the statement \<open>try { e; } catch (err) { }\<close>.
\<close>

datatype expr =
    Lit val
  | Arg nat
  | GetThis string
  | CallThis string "expr list"
  | Plus expr expr

datatype stmt =
    SetThis string expr
  | Eval expr
  | Return expr
  | Throw expr
  | Attempt expr

text \<open>
  What a function object runs when called: a user function (its source text and body),
  the closure returned by \<open>wrap(method, superMethod)\<close>, or the default child constructor
  that \<open>extend\<close> creates, closed over \<open>Parent\<close>.
\<close>

datatype fn =
    Native string "stmt list"
  | Wrap val val
  | Delegate val

record obj =
  props :: "(string \<times> val) list"
  hidden :: "(string \<times> val) list"
  proto :: val
  code :: "fn option"

type_synonym heap = "obj list"

text \<open>What a failing operation raises: a \<open>TypeError\<close> of the language, or a thrown value.\<close>

datatype error = TypeError | Thrown val

definition lookup :: "heap \<Rightarrow> addr \<Rightarrow> obj option" where
  "lookup h a = (if a < length h then Some (h ! a) else None)"

definition alloc :: "heap \<Rightarrow> obj \<Rightarrow> addr \<times> heap" where
  "alloc h ob = (length h, h @ [ob])"

text \<open>Own properties: the enumerable ones in \<open>props\<close>, the others in \<open>hidden\<close>.\<close>

definition get_own :: "obj \<Rightarrow> string \<Rightarrow> val option" where
  "get_own ob k = (case map_of (hidden ob) k of Some v \<Rightarrow> Some v | None \<Rightarrow> map_of (props ob) k)"

text \<open>
  \<open>o[k]\<close> on an object: own property first, then the prototype chain. The walk is
  bounded by the number of objects in the heap, which a chain without a cycle never
  exceeds.
\<close>

fun get_chain :: "nat \<Rightarrow> heap \<Rightarrow> addr \<Rightarrow> string \<Rightarrow> val" where
  "get_chain 0 h a k = VUndef"
| "get_chain (Suc n) h a k =
     (case lookup h a of
        None \<Rightarrow> VUndef
      | Some ob \<Rightarrow>
          (case get_own ob k of
             Some v \<Rightarrow> v
           | None \<Rightarrow> (case proto ob of VRef p \<Rightarrow> get_chain n h p k | _ \<Rightarrow> VUndef)))"

definition get_prop :: "heap \<Rightarrow> addr \<Rightarrow> string \<Rightarrow> val" where
  "get_prop h a k = get_chain (length h) h a k"

text \<open>Writing the own property \<open>k\<close> of an object, keeping its enumerability.\<close>

definition set_own :: "obj \<Rightarrow> string \<Rightarrow> val \<Rightarrow> obj" where
  "set_own ob k v =
     (if k \<in> fst ` set (hidden ob) then ob\<lparr>hidden := AList.update k v (hidden ob)\<rparr>
      else ob\<lparr>props := AList.update k v (props ob)\<rparr>)"

definition set_prop :: "heap \<Rightarrow> addr \<Rightarrow> string \<Rightarrow> val \<Rightarrow> heap" where
  "set_prop h a k v = (if a < length h then h[a := set_own (h ! a) k v] else h)"

text \<open>
  The members of a function that strict-mode code cannot assign: \<open>name\<close> and \<open>length\<close>
  are read-only, \<open>arguments\<close> and \<open>caller\<close> are read-only or guarded by an accessor
  that throws. The assignment \<open>o[k] = v\<close> fails on them when the lookup of \<open>k\<close> from
  \<open>o\<close> reaches a function before it reaches an object that lists \<open>k\<close>: on the function
  itself, and on every object that inherits the member from it.
\<close>

definition fixed_members :: "string list" where
  "fixed_members = [''name'', ''length'', ''arguments'', ''caller'']"

fun writable_chain :: "nat \<Rightarrow> heap \<Rightarrow> addr \<Rightarrow> string \<Rightarrow> bool" where
  "writable_chain 0 h a k = True"
| "writable_chain (Suc n) h a k =
     (case lookup h a of
        None \<Rightarrow> True
      | Some ob \<Rightarrow>
          (case get_own ob k of
             Some v \<Rightarrow> True
           | None \<Rightarrow>
               (if code ob \<noteq> None \<and> k \<in> set fixed_members then False
                else (case proto ob of VRef p \<Rightarrow> writable_chain n h p k | _ \<Rightarrow> True))))"

definition writable :: "heap \<Rightarrow> addr \<Rightarrow> string \<Rightarrow> bool" where
  "writable h a k = writable_chain (length h) h a k"

text \<open>\<open>o[k] = v\<close> in strict mode: a \<open>TypeError\<close> when the member cannot be assigned.\<close>

definition assign_prop :: "heap \<Rightarrow> addr \<Rightarrow> string \<Rightarrow> val \<Rightarrow> error + heap" where
  "assign_prop h a k v = (if writable h a k then Inr (set_prop h a k v) else Inl TypeError)"

definition isFunction :: "heap \<Rightarrow> val \<Rightarrow> bool" where
  "isFunction h v =
     (case v of VRef a \<Rightarrow> (case lookup h a of Some ob \<Rightarrow> code ob \<noteq> None | None \<Rightarrow> False)
      | _ \<Rightarrow> False)"

text \<open>
  A function expression creates a function object together with its default
  \<open>prototype\<close> object; \<open>prototype\<close> and \<open>constructor\<close> are not enumerable.
\<close>

definition new_function :: "heap \<Rightarrow> fn \<Rightarrow> addr \<times> heap" where
  "new_function h f =
     (let a = length h in
      (a, h @ [\<lparr>props = [], hidden = [(''prototype'', VRef (Suc a))], proto = VNull, code = Some f\<rparr>,
               \<lparr>props = [], hidden = [(''constructor'', VRef a)], proto = VNull, code = None\<rparr>]))"

section \<open>Rendering values as text\<close>

definition digit_char :: "nat \<Rightarrow> char" where
  "digit_char d = char_of (48 + d)"

fun show_nat :: "nat \<Rightarrow> string" where
  "show_nat n = (if n < 10 then [digit_char n] else show_nat (n div 10) @ [digit_char (n mod 10)])"

definition show_int :: "int \<Rightarrow> string" where
  "show_int i = (if i < 0 then CHR ''-'' # show_nat (nat (- i)) else show_nat (nat i))"

definition unlines :: "string list \<Rightarrow> string" where
  "unlines ls = (case ls of [] \<Rightarrow> [] | l # rest \<Rightarrow> foldl (\<lambda>acc x. acc @ CHR 0x0A # x) l rest)"

text \<open>The source text of the closure that \<open>wrap\<close> returns (lines 30 to 36).\<close>

definition wrap_src :: string where
  "wrap_src = unlines
     [''function () {'',
      ''      var prevSuper = this._super;'',
      ''      this._super = superMethod;'',
      ''      var ret = method.apply(this, arguments);'',
      ''      this._super = prevSuper;'',
      ''      return ret;'',
      ''    }'']"

text \<open>The source text of the default child constructor of \<open>extend\<close> (lines 148 to 150).\<close>

definition delegate_src :: string where
  "delegate_src = unlines
     [''function () {'',
      ''          Parent.apply(this, arguments);'',
      ''        }'']"

fun fn_text :: "fn \<Rightarrow> string" where
  "fn_text (Native src body) = src"
| "fn_text (Wrap method superMethod) = wrap_src"
| "fn_text (Delegate parent) = delegate_src"

text \<open>\<open>String(v)\<close>, which is what \<open>RegExp.prototype.test\<close> applies to its argument.\<close>

definition to_text :: "heap \<Rightarrow> val \<Rightarrow> string" where
  "to_text h v =
     (case v of
        VUndef \<Rightarrow> ''undefined''
      | VNull \<Rightarrow> ''null''
      | VBool b \<Rightarrow> (if b then ''true'' else ''false'')
      | VNum i \<Rightarrow> show_int i
      | VStr s \<Rightarrow> s
      | VRef a \<Rightarrow>
          (case lookup h a of
             Some ob \<Rightarrow> (case code ob of Some f \<Rightarrow> fn_text f | None \<Rightarrow> ''[object Object]'')
           | None \<Rightarrow> ''[object Object]''))"

section \<open>The super-reference test\<close>

text \<open>\<open>\w\<close> of a JavaScript regular expression: an ASCII letter, a digit or the underscore.\<close>

definition is_word :: "char \<Rightarrow> bool" where
  "is_word c =
     (let n = (of_char c :: nat) in
      (48 \<le> n \<and> n \<le> 57) \<or> (65 \<le> n \<and> n \<le> 90) \<or> n = 95 \<or> (97 \<le> n \<and> n \<le> 122))"

definition starts_with :: "string \<Rightarrow> string \<Rightarrow> bool" where
  "starts_with p s = (take (length p) s = p)"

text \<open>
  \<open>/\b_super\b/\<close> matching at the current position, \<open>prev\<close> being the character before
  it: the token starts and ends with a word character, so each \<open>\b\<close> asks for a
  non-word character, or the edge of the text, on the other side.
\<close>

definition super_at :: "char option \<Rightarrow> string \<Rightarrow> bool" where
  "super_at prev s =
     ((case prev of None \<Rightarrow> True | Some c \<Rightarrow> \<not> is_word c) \<and>
      starts_with ''_super'' s \<and>
      (case drop 6 s of [] \<Rightarrow> True | c # _ \<Rightarrow> \<not> is_word c))"

fun super_search :: "char option \<Rightarrow> string \<Rightarrow> bool" where
  "super_search prev [] = False"
| "super_search prev (c # cs) = (super_at prev (c # cs) \<or> super_search (Some c) cs)"

text \<open>\<open>/xyz/\<close>, the probe of line 45.\<close>

fun xyz_search :: "string \<Rightarrow> bool" where
  "xyz_search [] = False"
| "xyz_search (c # cs) = (starts_with ''xyz'' (c # cs) \<or> xyz_search cs)"

definition probe :: fn where
  "probe = Native (unlines [''function () {'', ''    return '' @ [CHR 0x22] @ ''xyz'' @ [CHR 0x22] @ '';'', ''  }''])
                  [Return (Lit (VStr ''xyz''))]"

text \<open>
  \<open>superTest.test(v)\<close>: the regular expression is chosen once, by testing whether the
  probe function renders as its source; if it does not, \<open>/.*/\<close> matches everything.
\<close>

definition superTest :: "heap \<Rightarrow> val \<Rightarrow> bool" where
  "superTest h v = (if xyz_search (fn_text probe) then super_search None (to_text h v) else True)"

section \<open>wrap and wrapAll\<close>

text \<open>\<open>wrap(method, superMethod)\<close> returns a new closure over its two arguments.\<close>

definition wrap :: "heap \<Rightarrow> val \<Rightarrow> val \<Rightarrow> val \<times> heap" where
  "wrap h method superMethod = (let (a, h') = new_function h (Wrap method superMethod) in (VRef a, h'))"

text \<open>
  \<open>_.keys(source)\<close>, as documented: the own enumerable property names; none for an
  omitted (\<open>undefined\<close> or \<open>null\<close>) source. A member bag is an object or is omitted.
\<close>

definition keys_of :: "heap \<Rightarrow> addr option \<Rightarrow> string list" where
  "keys_of h source =
     (case source of
        None \<Rightarrow> []
      | Some s \<Rightarrow> (case lookup h s of Some ob \<Rightarrow> map fst (props ob) | None \<Rightarrow> []))"

text \<open>
  The loop of lines 66 to 83, over the keys that are left. The assignments of lines 77
  and 81 are strict-mode assignments: the first one that fails ends the loop.
\<close>

fun wrapAll_loop :: "heap \<Rightarrow> addr \<Rightarrow> addr \<Rightarrow> string list \<Rightarrow> error + heap" where
  "wrapAll_loop h d s [] = Inr h"
| "wrapAll_loop h d s (name # ks) =
     (let method = get_prop h s name;
          superMethod = get_prop h d name;
          hasSuper = superTest h method
      in if hasSuper \<and> isFunction h method \<and> isFunction h superMethod
         then (let (w, h1) = wrap h method superMethod in
               case assign_prop h1 d name w of
                 Inl e \<Rightarrow> Inl e
               | Inr h2 \<Rightarrow> wrapAll_loop h2 d s ks)
         else (case assign_prop h d name method of
                 Inl e \<Rightarrow> Inl e
               | Inr h2 \<Rightarrow> wrapAll_loop h2 d s ks))"

text \<open>
  \<open>wrapAll(dest, source)\<close>. With no key it returns at once. Otherwise reading or writing
  a property of a destination that is not an object is a \<open>TypeError\<close> (strict mode).
\<close>

definition wrapAll :: "heap \<Rightarrow> val \<Rightarrow> addr option \<Rightarrow> error + heap" where
  "wrapAll h dest source =
     (let keys = keys_of h source in
      if length keys = 0 then Inr h
      else (case (dest, source) of
              (VRef d, Some s) \<Rightarrow> (if d < length h then wrapAll_loop h d s keys else Inl TypeError)
            | _ \<Rightarrow> Inl TypeError))"

section \<open>Calling functions\<close>

text \<open>
  Reading \<open>v.k\<close> and writing \<open>v.k = x\<close> in strict mode: \<open>undefined\<close> and \<open>null\<close> have no
  properties, a primitive cannot be given one, and an object only where the member can
  be assigned.
\<close>

definition get_val :: "heap \<Rightarrow> val \<Rightarrow> string \<Rightarrow> error + val" where
  "get_val h v k =
     (case v of
        VRef a \<Rightarrow> (if a < length h then Inr (get_prop h a k) else Inl TypeError)
      | VUndef \<Rightarrow> Inl TypeError
      | VNull \<Rightarrow> Inl TypeError
      | _ \<Rightarrow> Inr VUndef)"

definition set_val :: "heap \<Rightarrow> val \<Rightarrow> string \<Rightarrow> val \<Rightarrow> error + heap" where
  "set_val h v k x =
     (case v of
        VRef a \<Rightarrow> (if a < length h then assign_prop h a k x else Inl TypeError)
      | _ \<Rightarrow> Inl TypeError)"

text \<open>
  \<open>+\<close> on two numbers or on two strings. Numbers are integers; the coercions of \<open>+\<close> on
  other operands are outside the fragment, and the model gives no result there.
\<close>

fun plus_val :: "val \<Rightarrow> val \<Rightarrow> val option" where
  "plus_val (VNum a) (VNum b) = Some (VNum (a + b))"
| "plus_val (VStr a) (VStr b) = Some (VStr (a @ b))"
| "plus_val _ _ = None"

type_synonym result = "(error + val) \<times> heap"

text \<open>Sequencing: an exception, or no result, ends the computation.\<close>

definition and_then ::
  "((error + 'a) \<times> heap) option \<Rightarrow> ('a \<Rightarrow> heap \<Rightarrow> ((error + 'b) \<times> heap) option) \<Rightarrow>
   ((error + 'b) \<times> heap) option" where
  "and_then r k =
     (case r of None \<Rightarrow> None | Some (Inl e, h) \<Rightarrow> Some (Inl e, h) | Some (Inr v, h) \<Rightarrow> k v h)"

definition or_throw ::
  "error + 'a \<Rightarrow> heap \<Rightarrow> ('a \<Rightarrow> ((error + 'b) \<times> heap) option) \<Rightarrow> ((error + 'b) \<times> heap) option" where
  "or_throw r h k = (case r of Inl e \<Rightarrow> Some (Inl e, h) | Inr v \<Rightarrow> k v)"

definition code_of :: "heap \<Rightarrow> val \<Rightarrow> fn option" where
  "code_of h f =
     (case f of VRef a \<Rightarrow> (case lookup h a of Some ob \<Rightarrow> code ob | None \<Rightarrow> None) | _ \<Rightarrow> None)"

text \<open>
  The interpreter counts its nesting down from a bound, since a JavaScript call need not
  return; \<open>None\<close> means no result within the bound. \<open>call n h f this args\<close> is
  \<open>f.apply(this, args)\<close>; calling what is not a function is a \<open>TypeError\<close>.
  The \<open>Wrap\<close> case is the body of lines 31 to 35, the \<open>Delegate\<close> case line 149.
\<close>

fun call :: "nat \<Rightarrow> heap \<Rightarrow> val \<Rightarrow> val \<Rightarrow> val list \<Rightarrow> result option"
  and eval :: "nat \<Rightarrow> heap \<Rightarrow> val \<Rightarrow> val list \<Rightarrow> expr \<Rightarrow> result option"
  and eval_list :: "nat \<Rightarrow> heap \<Rightarrow> val \<Rightarrow> val list \<Rightarrow> expr list \<Rightarrow> ((error + val list) \<times> heap) option"
  and exec :: "nat \<Rightarrow> heap \<Rightarrow> val \<Rightarrow> val list \<Rightarrow> stmt list \<Rightarrow> result option"
where
  "call 0 = (\<lambda>h f this args. None)"
| "call (Suc n) = (\<lambda>h f this args.
     case code_of h f of
        None \<Rightarrow> Some (Inl TypeError, h)
      | Some (Native src body) \<Rightarrow> exec n h this args body
      | Some (Wrap method superMethod) \<Rightarrow>
          or_throw (get_val h this ''_super'') h (\<lambda>prevSuper.
          or_throw (set_val h this ''_super'' superMethod) h (\<lambda>h1.
          and_then (call n h1 method this args) (\<lambda>ret h2.
          or_throw (set_val h2 this ''_super'' prevSuper) h2 (\<lambda>h3.
          Some (Inr ret, h3)))))
      | Some (Delegate parent) \<Rightarrow>
          and_then (call n h parent this args) (\<lambda>r h1. Some (Inr VUndef, h1)))"
| "eval 0 = (\<lambda>h this args e. None)"
| "eval (Suc n) = (\<lambda>h this args e.
     case e of
        Lit v \<Rightarrow> Some (Inr v, h)
      | Arg i \<Rightarrow> Some (Inr (if i < length args then args ! i else VUndef), h)
      | GetThis k \<Rightarrow> Some (get_val h this k, h)
      | CallThis k es \<Rightarrow>
          or_throw (get_val h this k) h (\<lambda>f.
          and_then (eval_list n h this args es) (\<lambda>vs h1.
          call n h1 f this vs))
      | Plus e1 e2 \<Rightarrow>
          and_then (eval n h this args e1) (\<lambda>v1 h1.
          and_then (eval n h1 this args e2) (\<lambda>v2 h2.
          (case plus_val v1 v2 of None \<Rightarrow> None | Some v \<Rightarrow> Some (Inr v, h2)))))"
| "eval_list 0 = (\<lambda>h this args es. None)"
| "eval_list (Suc n) = (\<lambda>h this args es.
     case es of
        [] \<Rightarrow> Some (Inr [], h)
      | e # rest \<Rightarrow>
          and_then (eval n h this args e) (\<lambda>v h1.
          and_then (eval_list n h1 this args rest) (\<lambda>vs h2.
          Some (Inr (v # vs), h2))))"
| "exec 0 = (\<lambda>h this args ss. None)"
| "exec (Suc n) = (\<lambda>h this args ss.
     case ss of
        [] \<Rightarrow> Some (Inr VUndef, h)
      | SetThis k e # rest \<Rightarrow>
          and_then (eval n h this args e) (\<lambda>v h1.
          or_throw (set_val h1 this k v) h1 (\<lambda>h2.
          exec n h2 this args rest))
      | Eval e # rest \<Rightarrow>
          and_then (eval n h this args e) (\<lambda>v h1. exec n h1 this args rest)
      | Return e # rest \<Rightarrow> eval n h this args e
      | Throw e # rest \<Rightarrow>
          and_then (eval n h this args e) (\<lambda>v h1. Some (Inl (Thrown v), h1))
      | Attempt e # rest \<Rightarrow>
          (case eval n h this args e of
             None \<Rightarrow> None
           | Some (r, h1) \<Rightarrow> exec n h1 this args rest))"


text \<open>
  \<open>new f(args)\<close>: a new object whose prototype is \<open>f.prototype\<close>; the result is that
  object unless the constructor returns an object.
\<close>

definition construct :: "nat \<Rightarrow> heap \<Rightarrow> val \<Rightarrow> val list \<Rightarrow> result option" where
  "construct n h f args =
     (case f of
        VRef c \<Rightarrow>
          (if \<not> isFunction h f then Some (Inl TypeError, h)
           else
             (let (a, h1) = alloc h \<lparr>props = [], hidden = [],
                                     proto = (case get_prop h c ''prototype'' of VRef q \<Rightarrow> VRef q | _ \<Rightarrow> VNull),
                                     code = None\<rparr>
              in and_then (call n h1 f (VRef a) args)
                   (\<lambda>r h2. Some (Inr (case r of VRef x \<Rightarrow> VRef x | _ \<Rightarrow> VRef a), h2))))
      | _ \<Rightarrow> Some (Inl TypeError, h))"

section \<open>Metal.Error\<close>

text \<open>
  The error type and the deprecation notifier work on messages and option objects whose
  members are primitive values. An argument is such a primitive (\<open>Prim\<close>, never a
  reference) or an object literal (\<open>Obj\<close>), given by its members. An object's members
  are listed with the latest assignment first.
\<close>

type_synonym bag = "(string \<times> val) list"

datatype arg = Prim val | Obj bag

definition isObject :: "arg \<Rightarrow> bool" where
  "isObject a = (case a of Obj b \<Rightarrow> True | Prim v \<Rightarrow> False)"

definition truthy :: "val \<Rightarrow> bool" where
  "truthy v =
     (case v of
        VUndef \<Rightarrow> False
      | VNull \<Rightarrow> False
      | VBool b \<Rightarrow> b
      | VNum i \<Rightarrow> i \<noteq> 0
      | VStr s \<Rightarrow> s \<noteq> []
      | VRef a \<Rightarrow> True)"

text \<open>\<open>String(v)\<close> of a primitive.\<close>

definition prim_text :: "val \<Rightarrow> string" where
  "prim_text v = to_text [] v"

text \<open>\<open>o.k\<close> on an object literal.\<close>

definition member :: "bag \<Rightarrow> string \<Rightarrow> val" where
  "member b k = (case map_of b k of Some v \<Rightarrow> v | None \<Rightarrow> VUndef)"

definition errorProps :: "string list" where
  "errorProps = [''description'', ''fileName'', ''lineNumber'', ''name'', ''message'', ''number'']"

text \<open>\<open>_.pick(o, keys)\<close>: the listed properties that \<open>o\<close> has.\<close>

definition pick :: "bag \<Rightarrow> string list \<Rightarrow> bag" where
  "pick b ks = filter (\<lambda>(k, v). k \<in> set ks) b"

text \<open>\<open>_.assign(o, a, b)\<close>: the members of \<open>a\<close>, then those of \<open>b\<close>, are assigned to \<open>o\<close>.\<close>

definition assign_bag :: "bag \<Rightarrow> bag \<Rightarrow> bag \<Rightarrow> bag" where
  "assign_bag ob a b = b @ a @ ob"

text \<open>
  \<open>Error.call(this, message)\<close> returns a new \<open>Error\<close>; what is visible on it: the
  \<open>name\<close> of \<open>Error.prototype\<close>, and the message as a string, empty when the message is
  \<open>undefined\<close>. Host-specific fields (\<open>fileName\<close>, \<open>lineNumber\<close>, \<open>description\<close>,
  \<open>number\<close>) are left out.
\<close>

definition Error_call :: "val \<Rightarrow> bag" where
  "Error_call message =
     [(''name'', VStr ''Error''),
      (''message'', VStr (if message = VUndef then [] else prim_text message))]"

definition urlRoot :: string where
  "urlRoot = ''http://github.com/thejameskyle/metal.js''"

text \<open>
  What \<open>this\<close> shows before the constructor runs: the members it inherits from
  \<open>Err.prototype\<close> and \<open>Error.prototype\<close>.
\<close>

definition Err_proto :: bag where
  "Err_proto = [(''urlRoot'', VStr urlRoot), (''name'', VStr ''Error''), (''message'', VStr [])]"

text \<open>
  The constructor, lines 310 to 338, returning \<open>this\<close>. \<open>options\<close> is an object or
  omitted. Capturing the stack trace does not touch the members modelled here.
\<close>

definition Err_constructor :: "arg \<Rightarrow> bag option \<Rightarrow> bag" where
  "Err_constructor message0 options0 =
     (let options1 = (case options0 of None \<Rightarrow> [] | Some b \<Rightarrow> b);
          options = (case message0 of Obj b \<Rightarrow> b | Prim v \<Rightarrow> options1);
          message = (case message0 of Obj b \<Rightarrow> member b ''message'' | Prim v \<Rightarrow> v);
          error = Error_call message;
          this1 = assign_bag Err_proto (pick error errorProps) (pick options errorProps)
      in if truthy (member options ''url'')
         then (''url'', VStr (prim_text (member this1 ''urlRoot'') @ prim_text (member options ''url''))) # this1
         else this1)"

text \<open>\<open>toString\<close>, line 361.\<close>

definition Err_toString :: "bag \<Rightarrow> string" where
  "Err_toString this =
     [] @ prim_text (member this ''name'') @ '': '' @ prim_text (member this ''message'') @
     (if truthy (member this ''url'') then '' See: '' @ prim_text (member this ''url'') else [])"

section \<open>Metal.deprecate\<close>

text \<open>\<open>deprecate._format\<close>, line 415.\<close>

definition deprecate_format :: "val \<Rightarrow> val \<Rightarrow> val \<Rightarrow> string" where
  "deprecate_format prev next url =
     [] @ prim_text prev @ '' is going to be removed in the future. '' @
     (''Please use '' @ prim_text next @ '' instead.'') @
     (if truthy url then '' See: '' @ prim_text url else [])"

text \<open>
  The names that every plain object inherits from \<open>Object.prototype\<close>, each with a
  truthy value. They belong to the language, not to the library.
\<close>

definition Object_prototype_names :: "string list" where
  "Object_prototype_names =
     [''constructor'', ''toString'', ''toLocaleString'', ''valueOf'', ''hasOwnProperty'',
      ''isPrototypeOf'', ''propertyIsEnumerable'', ''__proto__'', ''__defineGetter__'',
      ''__defineSetter__'', ''__lookupGetter__'', ''__lookupSetter__'']"

text \<open>
  The state of the notifier: the own members of \<open>deprecate._cache\<close>, and what was sent
  to \<open>deprecate._warn\<close>, oldest first.
\<close>

record dstate =
  cache :: bag
  warned :: "string list"

definition dstate0 :: dstate where
  "dstate0 = \<lparr>cache = [], warned = []\<rparr>"

text \<open>Whether \<open>deprecate._cache[k]\<close> is truthy: an own member, else an inherited one.\<close>

definition cache_truthy :: "bag \<Rightarrow> string \<Rightarrow> bool" where
  "cache_truthy c k =
     (case map_of c k of Some v \<Rightarrow> truthy v | None \<Rightarrow> k \<in> set Object_prototype_names)"

text \<open>\<open>deprecate(message, test)\<close>, lines 382 to 401.\<close>

definition deprecate :: "dstate \<Rightarrow> arg \<Rightarrow> val \<Rightarrow> dstate" where
  "deprecate st message0 test =
     (if test \<noteq> VUndef \<and> truthy test then st
      else
        (let message1 = (case message0 of
                           Obj b \<Rightarrow> VStr (deprecate_format (member b ''prev'') (member b ''next'') (member b ''url''))
                         | Prim v \<Rightarrow> v);
             message = (if truthy message1 then VStr (prim_text message1) else message1)
         in if \<not> cache_truthy (cache st) (prim_text message)
            then st\<lparr>warned := warned st @ [''Deprecation warning: '' @ prim_text message],
                    cache := AList.update (prim_text message) (VBool True) (cache st)\<rparr>
            else st))"

text \<open>A run of the notifier: the calls made so far, in order.\<close>

fun deprecate_all :: "dstate \<Rightarrow> (arg \<times> val) list \<Rightarrow> dstate" where
  "deprecate_all st [] = st"
| "deprecate_all st ((m, t) # rest) = deprecate_all (deprecate st m t) rest"

section \<open>extend, mixin and include\<close>

text \<open>
  \<open>_.assign(dest, source)\<close> for two objects: every own enumerable property of the source
  is assigned to the destination, \<open>dest[k] = source[k]\<close>. The assignment is taken as a
  strict-mode assignment, like the library's own.
\<close>

fun assign_loop :: "heap \<Rightarrow> addr \<Rightarrow> addr \<Rightarrow> string list \<Rightarrow> error + heap" where
  "assign_loop h d s [] = Inr h"
| "assign_loop h d s (k # ks) =
     (case assign_prop h d k (get_prop h s k) of
        Inl e \<Rightarrow> Inl e
      | Inr h1 \<Rightarrow> assign_loop h1 d s ks)"

definition assign :: "heap \<Rightarrow> addr \<Rightarrow> addr \<Rightarrow> error + heap" where
  "assign h d s = assign_loop h d s (keys_of h (Some s))"

text \<open>\<open>_.has(o, k)\<close>: an own property.\<close>

definition has_own :: "heap \<Rightarrow> addr \<Rightarrow> string \<Rightarrow> bool" where
  "has_own h a k = (case lookup h a of Some ob \<Rightarrow> get_own ob k \<noteq> None | None \<Rightarrow> False)"

text \<open>
  The constructor of the subclass (lines 147 to 155). \<open>Parent.prototype.constructor\<close> is
  a \<open>TypeError\<close> when \<open>Parent.prototype\<close> is \<open>undefined\<close> or \<open>null\<close>.
\<close>

definition select_child :: "heap \<Rightarrow> addr \<Rightarrow> addr option \<Rightarrow> error + (val \<times> heap)" where
  "select_child h parent protoProps =
     (case protoProps of
        None \<Rightarrow> (let (a, h') = new_function h (Delegate (VRef parent)) in Inr (VRef a, h'))
      | Some pp \<Rightarrow>
          (if \<not> has_own h pp ''constructor''
           then (let (a, h') = new_function h (Delegate (VRef parent)) in Inr (VRef a, h'))
           else if superTest h (get_prop h pp ''constructor'')
           then (case get_val h (get_prop h parent ''prototype'') ''constructor'' of
                   Inl e \<Rightarrow> Inl e
                 | Inr pc \<Rightarrow> Inr (wrap h (get_prop h pp ''constructor'') pc))
           else Inr (get_prop h pp ''constructor'', h)))"

text \<open>
  \<open>Parent.extend(protoProps, staticProps)\<close>, lines 140 to 181, \<open>Parent\<close> being the
  receiver. A child that is not an object cannot be given a \<open>prototype\<close> (strict mode).
  \<open>new Surrogate()\<close> is an object with the own property \<open>constructor\<close> whose prototype is
  \<open>Parent.prototype\<close>. The members that lines 164, 167, 174 and 178 assign by name are
  none of the members that cannot be assigned, so these assignments are plain writes.
\<close>

definition extend :: "heap \<Rightarrow> addr \<Rightarrow> addr option \<Rightarrow> addr option \<Rightarrow> error + (val \<times> heap)" where
  "extend h parent protoProps staticProps =
     (case select_child h parent protoProps of
        Inl e \<Rightarrow> Inl e
      | Inr (child, h1) \<Rightarrow>
          (case child of
             VRef c \<Rightarrow>
               (if \<not> c < length h1 then Inl TypeError
                else
                  (case assign h1 c parent of
                     Inl e \<Rightarrow> Inl e
                   | Inr h2 \<Rightarrow>
                  (case wrapAll h2 child staticProps of
                     Inl e \<Rightarrow> Inl e
                   | Inr h3 \<Rightarrow>
                       (let (s, h4) = alloc h3 \<lparr>props = [(''constructor'', child)], hidden = [],
                                                proto = (case get_prop h3 parent ''prototype'' of
                                                           VRef q \<Rightarrow> VRef q | _ \<Rightarrow> VNull),
                                                code = None\<rparr>;
                            h5 = set_prop h4 c ''prototype'' (VRef s)
                        in case wrapAll h5 (get_prop h5 c ''prototype'') protoProps of
                             Inl e \<Rightarrow> Inl e
                           | Inr h6 \<Rightarrow>
                               (let h7 = set_prop h6 c ''superclass'' (VRef parent);
                                    h8 = set_prop h7 c ''__super__'' (get_prop h7 parent ''prototype'')
                                in Inr (child, h8))))))
           | _ \<Rightarrow> Inl TypeError))"


definition include_static :: "heap \<Rightarrow> addr \<Rightarrow> addr option \<Rightarrow> error + (val \<times> heap)" where
  "include_static h cls staticProps =
     (case wrapAll h (VRef cls) staticProps of
        Inl e \<Rightarrow> Inl e
      | Inr h' \<Rightarrow> Inr (VRef cls, h'))"

section \<open>Auxiliary definitions for the proofs\<close>

text \<open>
  Well-formed heaps: an object is created after its prototype (the library never
  reassigns a prototype), and every reference stored in a property points into the heap.
\<close>

definition val_ok :: "nat \<Rightarrow> val \<Rightarrow> bool" where
  "val_ok n v = (case v of VRef r \<Rightarrow> r < n | _ \<Rightarrow> True)"



text \<open>The prototype of an object, when it is an object.\<close>

definition proto_addr :: "obj \<Rightarrow> addr option" where
  "proto_addr ob = (case proto ob of VRef p \<Rightarrow> Some p | _ \<Rightarrow> None)"

text \<open>The test of line 76 for the key \<open>k\<close>, one round of the loop, and what a round leaves at its key.\<close>

definition should_wrap :: "heap \<Rightarrow> addr \<Rightarrow> addr \<Rightarrow> string \<Rightarrow> bool" where
  "should_wrap h d s k =
     (superTest h (get_prop h s k) \<and> isFunction h (get_prop h s k) \<and> isFunction h (get_prop h d k))"

definition wrap_one :: "heap \<Rightarrow> addr \<Rightarrow> addr \<Rightarrow> string \<Rightarrow> heap" where
  "wrap_one h d s k =
     (if should_wrap h d s k
      then set_prop (snd (wrap h (get_prop h s k) (get_prop h d k))) d k
             (fst (wrap h (get_prop h s k) (get_prop h d k)))
      else set_prop h d k (get_prop h s k))"

text \<open>
  What the loops of \<open>wrapAll\<close> and of \<open>_.assign\<close> leave when no assignment fails: the
  rounds one after the other.
\<close>

fun merge_loop :: "heap \<Rightarrow> addr \<Rightarrow> addr \<Rightarrow> string list \<Rightarrow> heap" where
  "merge_loop h d s [] = h"
| "merge_loop h d s (k # ks) = merge_loop (wrap_one h d s k) d s ks"

fun copy_loop :: "heap \<Rightarrow> addr \<Rightarrow> addr \<Rightarrow> string list \<Rightarrow> heap" where
  "copy_loop h d s [] = h"
| "copy_loop h d s (k # ks) = copy_loop (set_prop h d k (get_prop h s k)) d s ks"

definition copy_all :: "heap \<Rightarrow> addr \<Rightarrow> addr \<Rightarrow> heap" where
  "copy_all h d s = copy_loop h d s (keys_of h (Some s))"



text \<open>The options object \<open>{ message?, url? }\<close> with string members.\<close>

definition options_of :: "string option \<Rightarrow> string option \<Rightarrow> bag" where
  "options_of om ou =
     (case om of None \<Rightarrow> [] | Some x \<Rightarrow> [(''message'', VStr x)]) @
     (case ou of None \<Rightarrow> [] | Some u \<Rightarrow> [(''url'', VStr u)])"

text \<open>The prefix that \<open>deprecate\<close> puts before a message, and the cache key of a message.\<close>

definition warn_prefix :: string where
  "warn_prefix = ''Deprecation warning: ''"

definition message_key :: "arg \<Rightarrow> string" where
  "message_key m =
     prim_text (let message1 = (case m of
                   Obj b \<Rightarrow> VStr (deprecate_format (member b ''prev'') (member b ''next'') (member b ''url''))
                 | Prim v \<Rightarrow> v)
                in if truthy message1 then VStr (prim_text message1) else message1)"

text \<open>
  What \<open>deprecate\<close> maintains: no warning was sent twice, every warning sent has its
  key in the cache, and the cache only holds \<open>true\<close>.
\<close>

definition cache_inv :: "dstate \<Rightarrow> bool" where
  "cache_inv st =
     (distinct (warned st) \<and>
      (\<forall>w \<in> set (warned st). \<exists>k. w = warn_prefix @ k \<and> map_of (cache st) k = Some (VBool True)) \<and>
      (\<forall>k v. map_of (cache st) k = Some v \<longrightarrow> v = VBool True))"

text \<open>
  What a call leaves of the heap: its size and the code of every object. A heap agrees
  with an earlier one when it has at least its objects, with the same code.
\<close>

definition pres :: "heap \<Rightarrow> heap \<Rightarrow> bool" where
  "pres h h' = (length h' = length h \<and> (\<forall>a < length h. code (h' ! a) = code (h ! a)))"

definition pres_at :: "nat \<Rightarrow> bool" where
  "pres_at n =
     ((\<forall>h f this args x h'. call n h f this args = Some (x, h') \<longrightarrow> pres h h') \<and>
      (\<forall>h this args e x h'. eval n h this args e = Some (x, h') \<longrightarrow> pres h h') \<and>
      (\<forall>h this args es x h'. eval_list n h this args es = Some (x, h') \<longrightarrow> pres h h') \<and>
      (\<forall>h this args ss x h'. exec n h this args ss = Some (x, h') \<longrightarrow> pres h h'))"

definition agrees :: "heap \<Rightarrow> heap \<Rightarrow> bool" where
  "agrees h0 h = (length h0 \<le> length h \<and> (\<forall>a < length h0. code (h ! a) = code (h0 ! a)))"

text \<open>
  An override chain of depth \<open>k\<close>: the function \<open>b\<close> at the bottom, and \<open>k\<close> times the
  wrapper of the method \<open>m\<close> over the level below.
\<close>

fun chain_of :: "heap \<Rightarrow> val \<Rightarrow> val \<Rightarrow> nat \<Rightarrow> val \<times> heap" where
  "chain_of h m b 0 = (b, h)"
| "chain_of h m b (Suc k) = (let (s, h1) = chain_of h m b k in wrap h1 m s)"

text \<open>
  What an operation leaves of the objects that exist before it: those outside \<open>ds\<close> are
  unchanged, and all keep their code and their prototype.
\<close>

definition frame :: "heap \<Rightarrow> addr set \<Rightarrow> heap \<Rightarrow> bool" where
  "frame h ds h' =
     (length h \<le> length h' \<and>
      (\<forall>a < length h. a \<notin> ds \<longrightarrow> h' ! a = h ! a) \<and>
      (\<forall>a < length h. code (h' ! a) = code (h ! a) \<and> proto (h' ! a) = proto (h ! a)))"

text \<open>The object that \<open>new Surrogate()\<close> creates in \<open>extend\<close>.\<close>

definition surrogate :: "heap \<Rightarrow> addr \<Rightarrow> val \<Rightarrow> obj" where
  "surrogate h parent child =
     \<lparr>props = [(''constructor'', child)], hidden = [],
      proto = (case get_prop h parent ''prototype'' of VRef q \<Rightarrow> VRef q | _ \<Rightarrow> VNull),
      code = None\<rparr>"

text \<open>
  The super-reference token, and its occurrences in a text that have no character of a
  given class right before or right after them.
\<close>

definition super_token :: string where
  "super_token = ''_super''"

definition bounded :: "(char \<Rightarrow> bool) \<Rightarrow> string \<Rightarrow> bool" where
  "bounded P t =
     (\<exists>pre post. t = pre @ super_token @ post \<and>
        (pre = [] \<or> \<not> P (last pre)) \<and> (post = [] \<or> \<not> P (hd post)))"

text \<open>
  A character of a JavaScript identifier (in ASCII): a letter, a digit, the underscore or
  the dollar sign. The specification speaks of the standalone token, as opposed to the
  token as a proper part of a longer identifier: an occurrence with no identifier
  character on either side. A text contains the token only inside longer identifiers
  when it contains it and has no standalone occurrence.
\<close>

definition is_ident :: "char \<Rightarrow> bool" where
  "is_ident c = (is_word c \<or> c = CHR ''$'')"

definition standalone_super :: "string \<Rightarrow> bool" where
  "standalone_super t = bounded is_ident t"

definition contains_super :: "string \<Rightarrow> bool" where
  "contains_super t = (\<exists>pre post. t = pre @ super_token @ post)"

definition only_inside_identifier :: "string \<Rightarrow> bool" where
  "only_inside_identifier t = (contains_super t \<and> \<not> standalone_super t)"

text \<open>What the regular expression looks for: an occurrence between word boundaries.\<close>

definition whole_word :: "string \<Rightarrow> bool" where
  "whole_word t = bounded is_word t"

text \<open>The search for such an occurrence from left to right, which decides \<open>bounded\<close>.\<close>

definition token_at :: "(char \<Rightarrow> bool) \<Rightarrow> char option \<Rightarrow> string \<Rightarrow> bool" where
  "token_at P prev t =
     ((case prev of None \<Rightarrow> True | Some c \<Rightarrow> \<not> P c) \<and>
      starts_with super_token t \<and>
      (case drop (length super_token) t of [] \<Rightarrow> True | c # _ \<Rightarrow> \<not> P c))"

fun token_search :: "(char \<Rightarrow> bool) \<Rightarrow> char option \<Rightarrow> string \<Rightarrow> bool" where
  "token_search P prev [] = False"
| "token_search P prev (c # cs) = (token_at P prev (c # cs) \<or> token_search P (Some c) cs)"

section \<open>Example functions and heaps\<close>

text \<open>User functions, each with its source text and its body.\<close>

definition base_fn :: fn where
  "base_fn = Native ''function () { return 10; }'' [Return (Lit (VNum 10))]"

definition add1_fn :: fn where
  "add1_fn = Native ''function () { return this._super() + 1; }''
                    [Return (Plus (CallThis ''_super'' []) (Lit (VNum 1)))]"

definition supervisor_fn :: fn where
  "supervisor_fn = Native ''function () { return this._supervisor; }'' [Return (GetThis ''_supervisor'')]"

definition throw_fn :: fn where
  "throw_fn = Native ''function () { throw 'boom'; }'' [Throw (Lit (VStr ''boom''))]"

definition empty_obj :: obj where
  "empty_obj = \<lparr>props = [], hidden = [], proto = VNull, code = None\<rparr>"

text \<open>
  A member table at address 0 and a member bag at address 1; the functions they mention
  are allocated after them, each followed by its prototype object.
\<close>

definition ex3 :: heap where
  "ex3 = snd (new_function (snd (new_function
           [\<lparr>props = [(''f'', VRef 2), (''n'', VNum 0)], hidden = [], proto = VNull, code = None\<rparr>,
            \<lparr>props = [(''f'', VRef 4), (''g'', VRef 4), (''n'', VNum 1)], hidden = [], proto = VNull, code = None\<rparr>]
           base_fn)) add1_fn)"

definition ex5 :: heap where
  "ex5 = snd (new_function (snd (new_function
           [\<lparr>props = [(''f'', VRef 2)], hidden = [], proto = VNull, code = None\<rparr>,
            \<lparr>props = [(''f'', VRef 4)], hidden = [], proto = VNull, code = None\<rparr>]
           base_fn)) supervisor_fn)"

text \<open>
  A receiver at address 0, the function returning 10 at address 1, the function that adds
  1 to its super at address 3, and three wrappers of it, each over the level below, at
  addresses 5, 7 and 9.
\<close>

definition chain3 :: heap where
  "chain3 =
     (let h0 = snd (new_function (snd (new_function [empty_obj] base_fn)) add1_fn);
          (w1, h1) = wrap h0 (VRef 3) (VRef 1);
          (w2, h2) = wrap h1 (VRef 3) w1;
          (w3, h3) = wrap h2 (VRef 3) w2
      in h3)"

text \<open>
  A receiver at address 0, the function returning 10 at address 1, the throwing function
  at address 3, and at address 5 the wrapper of the throwing function over the other.
\<close>

definition throwing :: heap where
  "throwing =
     (let h0 = snd (new_function (snd (new_function [empty_obj] base_fn)) throw_fn)
      in snd (wrap h0 (VRef 3) (VRef 1)))"





text \<open>
  A class with one static member and two bags of static members; the heap after a first
  subclass is made of it, at address 4, and after a second, at address 7.
\<close>

definition plain_fn :: fn where
  "plain_fn = Native ''function () {}'' []"

definition pair_heap :: heap where
  "pair_heap =
     [\<lparr>props = [(''s'', VNum 7)], hidden = [(''prototype'', VRef 1)], proto = VNull, code = Some plain_fn\<rparr>,
      \<lparr>props = [], hidden = [(''constructor'', VRef 0)], proto = VNull, code = None\<rparr>,
      \<lparr>props = [(''x'', VNum 1)], hidden = [], proto = VNull, code = None\<rparr>,
      \<lparr>props = [(''y'', VNum 2)], hidden = [], proto = VNull, code = None\<rparr>]"

definition child1_heap :: heap where
  "child1_heap = pair_heap @
     [\<lparr>props = [(''s'', VNum 7), (''superclass'', VRef 0), (''__super__'', VRef 1)],
       hidden = [(''prototype'', VRef 6)], proto = VNull, code = Some (Delegate (VRef 0))\<rparr>,
      \<lparr>props = [], hidden = [(''constructor'', VRef 4)], proto = VNull, code = None\<rparr>,
      \<lparr>props = [(''constructor'', VRef 4)], hidden = [], proto = VRef 1, code = None\<rparr>]"

definition child2_heap :: heap where
  "child2_heap = child1_heap @
     [\<lparr>props = [(''s'', VNum 7), (''superclass'', VRef 0), (''__super__'', VRef 1)],
       hidden = [(''prototype'', VRef 9)], proto = VNull, code = Some (Delegate (VRef 0))\<rparr>,
      \<lparr>props = [], hidden = [(''constructor'', VRef 7)], proto = VNull, code = None\<rparr>,
      \<lparr>props = [(''constructor'', VRef 7)], hidden = [], proto = VRef 1, code = None\<rparr>]"

text \<open>
  A class at address 0 and a bag that supplies the class itself as \<open>constructor\<close>, with a
  bag of static members; and the heap after the class is extended with them.
\<close>

definition alias_heap :: heap where
  "alias_heap = snd (new_function [] plain_fn) @
     [\<lparr>props = [(''constructor'', VRef 0)], hidden = [], proto = VNull, code = None\<rparr>,
      \<lparr>props = [(''x'', VNum 1)], hidden = [], proto = VNull, code = None\<rparr>]"

definition alias_after :: heap where
  "alias_after =
     [\<lparr>props = [(''x'', VNum 1), (''superclass'', VRef 0), (''__super__'', VRef 4)],
       hidden = [(''prototype'', VRef 4)], proto = VNull, code = Some plain_fn\<rparr>,
      \<lparr>props = [], hidden = [(''constructor'', VRef 0)], proto = VNull, code = None\<rparr>,
      \<lparr>props = [(''constructor'', VRef 0)], hidden = [], proto = VNull, code = None\<rparr>,
      \<lparr>props = [(''x'', VNum 1)], hidden = [], proto = VNull, code = None\<rparr>,
      \<lparr>props = [(''constructor'', VRef 0)], hidden = [], proto = VRef 1, code = None\<rparr>]"

text \<open>
  A class at address 0 with its instance table at address 1, an instance at address 8,
  and two mixins that both define \<open>g\<close>: the mixin at address 2 with a function returning
  \<open>A\<close>, the mixin at address 3 with a function that puts \<open>B+\<close> before what its super
  returns. Then the heaps after applying the first, the first then the second, the second,
  and the second then the first.
\<close>

definition a_fn :: fn where
  "a_fn = Native ''function () { return 'A'; }'' [Return (Lit (VStr ''A''))]"







text \<open>
  A receiver at address 0 whose member \<open>inner\<close> is the function at address 9. The function
  returning 10 is at address 1, the throwing function at address 3, the function
  returning \<open>A\<close> at address 5. The function at address 7 calls \<open>this.inner()\<close> inside
  \<open>try\<close> and \<open>catch\<close>, then returns what \<open>this._super()\<close> returns. At address 9 is the
  wrapper of the throwing function over the function returning \<open>A\<close>, at address 11 the
  wrapper of the function at address 7 over the function returning 10.
\<close>

definition catch_fn :: fn where
  "catch_fn = Native ''function () { try { this.inner(); } catch (e) { } return this._super(); }''
                     [Attempt (CallThis ''inner'' []), Return (CallThis ''_super'' [])]"

definition catching :: heap where
  "catching =
     (let h0 = snd (new_function (snd (new_function (snd (new_function (snd (new_function
                 [\<lparr>props = [(''inner'', VRef 9)], hidden = [], proto = VNull, code = None\<rparr>]
                 base_fn)) throw_fn)) a_fn)) catch_fn);
          h1 = snd (wrap h0 (VRef 3) (VRef 5))
      in snd (wrap h1 (VRef 7) (VRef 1)))"

text \<open>
  A function whose text has the token only inside the identifier \<open>$_super\<close>; then a member
  table at address 0 and a member bag at address 1 that both define \<open>f\<close>, the table with
  the function returning 10, at address 2, the bag with that function, at address 4.
\<close>

definition dollar_fn :: fn where
  "dollar_fn = Native ''function () { return this.$_super(); }'' [Return (CallThis ''$_super'' [])]"

definition ex_dollar :: heap where
  "ex_dollar = snd (new_function (snd (new_function
           [\<lparr>props = [(''f'', VRef 2)], hidden = [], proto = VNull, code = None\<rparr>,
            \<lparr>props = [(''f'', VRef 4)], hidden = [], proto = VNull, code = None\<rparr>]
           base_fn)) dollar_fn)"





text \<open>
  Three constructors: one that sets a counter to 0, one that calls its super and adds 1
  to the counter, one that only calls its super. The class at address 0 has the first as
  its constructor; the bag at address 6 supplies the second as \<open>constructor\<close>, the bag at
  address 7 the third.
\<close>

definition zero_fn :: fn where
  "zero_fn = Native ''function () { this.c = 0; }'' [SetThis ''c'' (Lit (VNum 0))]"

definition count_fn :: fn where
  "count_fn = Native ''function () { this._super(); this.c = this.c + 1; }''
                     [Eval (CallThis ''_super'' []), SetThis ''c'' (Plus (GetThis ''c'') (Lit (VNum 1)))]"

definition leaf_fn :: fn where
  "leaf_fn = Native ''function () { this._super(); }'' [Eval (CallThis ''_super'' [])]"

definition tower_heap :: heap where
  "tower_heap =
     [\<lparr>props = [], hidden = [(''prototype'', VRef 1)], proto = VNull, code = Some zero_fn\<rparr>,
      \<lparr>props = [], hidden = [(''constructor'', VRef 0)], proto = VNull, code = None\<rparr>,
      \<lparr>props = [], hidden = [(''prototype'', VRef 3)], proto = VNull, code = Some count_fn\<rparr>,
      \<lparr>props = [], hidden = [(''constructor'', VRef 2)], proto = VNull, code = None\<rparr>,
      \<lparr>props = [], hidden = [(''prototype'', VRef 5)], proto = VNull, code = Some leaf_fn\<rparr>,
      \<lparr>props = [], hidden = [(''constructor'', VRef 4)], proto = VNull, code = None\<rparr>,
      \<lparr>props = [(''constructor'', VRef 2)], hidden = [], proto = VNull, code = None\<rparr>,
      \<lparr>props = [(''constructor'', VRef 4)], hidden = [], proto = VNull, code = None\<rparr>]"

text \<open>
  The heap after the class at address 0 is extended with the bag at address 6: the
  subclass is at address 8 and its instance table at address 10. Then the heap after that
  subclass is extended with the bag at address 7: the second subclass is at address 13.
\<close>

definition mid_heap :: heap where
  "mid_heap = tower_heap @
     [\<lparr>props = [(''superclass'', VRef 0), (''__super__'', VRef 1)],
       hidden = [(''prototype'', VRef 10)], proto = VNull, code = Some (Wrap (VRef 2) (VRef 0))\<rparr>,
      \<lparr>props = [], hidden = [(''constructor'', VRef 8)], proto = VNull, code = None\<rparr>,
      \<lparr>props = [(''constructor'', VRef 11)], hidden = [], proto = VRef 1, code = None\<rparr>,
      \<lparr>props = [], hidden = [(''prototype'', VRef 12)], proto = VNull, code = Some (Wrap (VRef 2) (VRef 8))\<rparr>,
      \<lparr>props = [], hidden = [(''constructor'', VRef 11)], proto = VNull, code = None\<rparr>]"

definition top_heap :: heap where
  "top_heap = mid_heap @
     [\<lparr>props = [(''superclass'', VRef 8), (''__super__'', VRef 10)],
       hidden = [(''prototype'', VRef 15)], proto = VNull, code = Some (Wrap (VRef 4) (VRef 11))\<rparr>,
      \<lparr>props = [], hidden = [(''constructor'', VRef 13)], proto = VNull, code = None\<rparr>,
      \<lparr>props = [(''constructor'', VRef 16)], hidden = [], proto = VRef 10, code = None\<rparr>,
      \<lparr>props = [], hidden = [(''prototype'', VRef 17)], proto = VNull, code = Some (Wrap (VRef 4) (VRef 13))\<rparr>,
      \<lparr>props = [], hidden = [(''constructor'', VRef 16)], proto = VNull, code = None\<rparr>]"

section \<open>The heap: reading, writing and allocating\<close>

lemma get_chain_Suc:
  "get_chain (Suc n) h a k =
     (case lookup h a of
        None \<Rightarrow> VUndef
      | Some ob \<Rightarrow>
          (case get_own ob k of
             Some v \<Rightarrow> v
           | None \<Rightarrow> (case proto_addr ob of Some p \<Rightarrow> get_chain n h p k | None \<Rightarrow> VUndef)))"
  by (simp add: proto_addr_def split: option.splits val.splits)

lemma get_own_set_own: "get_own (set_own ob k v) k' = (if k' = k then Some v else get_own ob k')"
proof (cases "k \<in> fst ` set (hidden ob)")
  case True
  then show ?thesis by (simp add: get_own_def set_own_def update_conv' split: option.splits)
next
  case False
  then have "map_of (hidden ob) k = None" by (simp add: map_of_eq_None_iff)
  with False show ?thesis by (simp add: get_own_def set_own_def update_conv' split: option.splits)
qed

lemma proto_set_own: "proto (set_own ob k v) = proto ob"
  by (simp add: set_own_def)

lemma proto_addr_set_own: "proto_addr (set_own ob k v) = proto_addr ob"
  by (simp add: proto_addr_def proto_set_own)

lemma code_set_own: "code (set_own ob k v) = code ob"
  by (simp add: set_own_def)

lemma length_set_prop: "length (set_prop h d k v) = length h"
  by (simp add: set_prop_def)

lemma nth_set_prop:
  "a < length h \<Longrightarrow> set_prop h d k v ! a = (if a = d then set_own (h ! a) k v else h ! a)"
  by (simp add: set_prop_def)


lemma lookup_None: "lookup h a = None \<longleftrightarrow> \<not> a < length h"
  by (auto simp: lookup_def)

lemma lookup_set_prop:
  "lookup (set_prop h d k v) a = map_option (\<lambda>ob. if a = d then set_own ob k v else ob) (lookup h a)"
  by (simp add: lookup_def length_set_prop nth_set_prop)

lemma get_chain_set_prop_other:
  "k' \<noteq> k \<Longrightarrow> get_chain n (set_prop h d k v) a k' = get_chain n h a k'"
proof (induction n arbitrary: a)
  case 0
  show ?case by simp
next
  case (Suc n)
  show ?case
  proof (cases "lookup h a")
    case None
    then show ?thesis by (simp only: get_chain_Suc lookup_set_prop option.map option.case)
  next
    case (Some ob)
    have g: "get_own (if a = d then set_own ob k v else ob) k' = get_own ob k'"
      using Suc.prems by (simp add: get_own_set_own)
    have p: "proto_addr (if a = d then set_own ob k v else ob) = proto_addr ob"
      by (simp add: proto_addr_set_own)
    show ?thesis
      by (simp only: get_chain_Suc lookup_set_prop Some option.map option.case g p Suc.IH [OF Suc.prems])
  qed
qed

lemma get_prop_set_prop_other:
  "k' \<noteq> k \<Longrightarrow> get_prop (set_prop h d k v) a k' = get_prop h a k'"
  by (simp add: get_prop_def length_set_prop get_chain_set_prop_other)

lemma get_prop_set_prop_same:
  assumes d: "d < length h"
  shows "get_prop (set_prop h d k v) d k = v"
proof -
  from d obtain n where n: "length h = Suc n" by (cases "length h") auto
  have l: "lookup h d = Some (h ! d)" using d by (simp add: lookup_def)
  show ?thesis
    by (simp add: get_prop_def length_set_prop n get_chain_Suc lookup_set_prop l get_own_set_own
        del: get_chain.simps)
qed

lemma code_of_VRef: "code_of h (VRef a) = (case lookup h a of Some ob \<Rightarrow> code ob | None \<Rightarrow> None)"
  by (simp add: code_of_def)

lemma code_of_set_prop: "code_of (set_prop h d k v) f = code_of h f"
proof (cases f)
  case (VRef a)
  show ?thesis
    by (cases "lookup h a") (simp_all add: VRef code_of_VRef lookup_set_prop code_set_own)
qed (simp_all add: code_of_def)

lemma isFunction_code_of: "isFunction h f = (code_of h f \<noteq> None)"
  by (cases f) (simp_all add: isFunction_def code_of_def split: option.splits)

lemma to_text_VRef:
  "to_text h (VRef a) = (case code_of h (VRef a) of Some f \<Rightarrow> fn_text f | None \<Rightarrow> ''[object Object]'')"
  by (simp add: to_text_def code_of_def split: option.splits)




lemma lookup_append: "a < length h \<Longrightarrow> lookup (h @ hs) a = lookup h a"
  by (simp add: lookup_def nth_append)

lemma code_of_append: "val_ok (length h) v \<Longrightarrow> code_of (h @ hs) v = code_of h v"
  by (cases v) (simp_all add: code_of_def val_ok_def lookup_append)













lemma wrap_eq:
  "wrap h m s =
     (VRef (length h),
      h @ [\<lparr>props = [], hidden = [(''prototype'', VRef (Suc (length h)))], proto = VNull,
              code = Some (Wrap m s)\<rparr>,
           \<lparr>props = [], hidden = [(''constructor'', VRef (length h))], proto = VNull, code = None\<rparr>])"
  by (simp add: wrap_def new_function_def Let_def)


lemma merge_loop_Cons: "merge_loop h d s (k # ks) = merge_loop (wrap_one h d s k) d s ks"
  by simp



text \<open>What one round of the loop does.\<close>

lemma wrap_one_plain:
  assumes "\<not> should_wrap h d s k"
  shows "wrap_one h d s k = set_prop h d k (get_prop h s k)"
  using assms by (simp add: wrap_one_def)

lemma wrap_one_wrapped:
  assumes "should_wrap h d s k"
  shows "wrap_one h d s k = set_prop (snd (new_function h (Wrap (get_prop h s k) (get_prop h d k)))) d k (VRef (length h))"
  using assms by (simp add: wrap_one_def wrap_def new_function_def Let_def)

lemma length_new_function: "length (snd (new_function h f)) = length h + 2"
  by (simp add: new_function_def Let_def)

lemma nth_new_function_old: "a < length h \<Longrightarrow> snd (new_function h f) ! a = h ! a"
  by (simp add: new_function_def Let_def nth_append)

lemma code_new_function: "code (snd (new_function h f) ! length h) = Some f"
  by (simp add: new_function_def Let_def nth_append)

lemma new_function_append: "\<exists>hs. snd (new_function h f) = h @ hs"
  by (simp add: new_function_def Let_def)




section \<open>Assignments that can fail\<close>

lemma writable_chain_Suc:
  "writable_chain (Suc n) h a k =
     (case lookup h a of
        None \<Rightarrow> True
      | Some ob \<Rightarrow>
          (case get_own ob k of
             Some v \<Rightarrow> True
           | None \<Rightarrow>
               (if code ob \<noteq> None \<and> k \<in> set fixed_members then False
                else (case proto_addr ob of Some p \<Rightarrow> writable_chain n h p k | None \<Rightarrow> True))))"
  by (simp add: proto_addr_def split: option.splits val.splits)

lemma writable_chain_plain: "k \<notin> set fixed_members \<Longrightarrow> writable_chain n h a k"
proof (induction n arbitrary: a)
  case 0
  show ?case by simp
next
  case (Suc n)
  then show ?case
    by (simp only: writable_chain_Suc) (simp split: option.splits)
qed

lemma writable_plain: "k \<notin> set fixed_members \<Longrightarrow> writable h a k"
  by (simp add: writable_def writable_chain_plain)

lemma assign_prop_plain: "k \<notin> set fixed_members \<Longrightarrow> assign_prop h a k v = Inr (set_prop h a k v)"
  by (simp add: assign_prop_def writable_plain)

lemma assign_prop_Inr: "assign_prop h a k v = Inr h' \<Longrightarrow> h' = set_prop h a k v"
  by (simp add: assign_prop_def split: if_splits)

lemma super_plain: "''_super'' \<notin> set fixed_members"
  by (simp add: fixed_members_def)








text \<open>The loop of \<open>wrapAll\<close>: one round, and what it returns.\<close>

lemma wrapAll_loop_Cons:
  "wrapAll_loop h d s (k # ks) =
     (if writable (if should_wrap h d s k
                   then snd (new_function h (Wrap (get_prop h s k) (get_prop h d k))) else h) d k
      then wrapAll_loop (wrap_one h d s k) d s ks
      else Inl TypeError)"
  by (simp add: wrap_one_def should_wrap_def assign_prop_def wrap_def Let_def split: prod.splits)

lemma wrapAll_loop_Inr: "wrapAll_loop h d s ks = Inr h' \<Longrightarrow> h' = merge_loop h d s ks"
proof (induction ks arbitrary: h)
  case Nil
  then show ?case by simp
next
  case (Cons k ks)
  from Cons.prems have "wrapAll_loop (wrap_one h d s k) d s ks = Inr h'"
    unfolding wrapAll_loop_Cons by (simp split: if_splits)
  then have "h' = merge_loop (wrap_one h d s k) d s ks" by (rule Cons.IH)
  then show ?case by simp
qed




lemma wrapAll_Inr:
  assumes "wrapAll h dest src = Inr h'"
  obtains (none) "keys_of h src = []" "h' = h"
        | (some) d s where "dest = VRef d" "src = Some s" "d < length h"
            "h' = merge_loop h d s (keys_of h src)"
proof (cases "keys_of h src = []")
  case True
  with assms have "h' = h" by (simp add: wrapAll_def)
  with True show ?thesis by (rule none)
next
  case False
  with assms obtain d s where ds: "dest = VRef d" "src = Some s" "d < length h"
    and "wrapAll_loop h d s (keys_of h src) = Inr h'"
    by (auto simp: wrapAll_def Let_def split: val.splits option.splits if_splits)
  from this(4) have "h' = merge_loop h d s (keys_of h src)" by (rule wrapAll_loop_Inr)
  with ds show ?thesis by (rule some)
qed

lemma assign_loop_Inr: "assign_loop h d s ks = Inr h' \<Longrightarrow> h' = copy_loop h d s ks"
proof (induction ks arbitrary: h)
  case Nil
  then show ?case by simp
next
  case (Cons k ks)
  from Cons.prems obtain h1 where a: "assign_prop h d k (get_prop h s k) = Inr h1"
    and r: "assign_loop h1 d s ks = Inr h'" by (auto split: sum.splits)
  from a have "h1 = set_prop h d k (get_prop h s k)" by (rule assign_prop_Inr)
  with Cons.IH [OF r] show ?case by simp
qed

lemma assign_Inr: "assign h d s = Inr h' \<Longrightarrow> h' = copy_all h d s"
  unfolding assign_def copy_all_def by (rule assign_loop_Inr)

section \<open>The super-reference test is a whole-word match\<close>

lemma probe_renders: "xyz_search (fn_text probe)"
  by (simp add: probe_def unlines_def starts_with_def)

lemma superTest_eq: "superTest h v = super_search None (to_text h v)"
  by (simp add: superTest_def probe_renders)

lemma starts_with_iff: "starts_with p t \<longleftrightarrow> (\<exists>post. t = p @ post)"
proof
  assume "starts_with p t"
  then have "t = p @ drop (length p) t"
    by (metis append_take_drop_id starts_with_def)
  then show "\<exists>post. t = p @ post" ..
next
  assume "\<exists>post. t = p @ post"
  then show "starts_with p t" by (auto simp: starts_with_def)
qed

lemma super_at_iff:
  "super_at prev t \<longleftrightarrow>
     (case prev of None \<Rightarrow> True | Some c \<Rightarrow> \<not> is_word c) \<and>
     (\<exists>post. t = super_token @ post \<and> (post = [] \<or> \<not> is_word (hd post)))"
proof -
  have len: "length super_token = 6" by (simp add: super_token_def)
  have "(starts_with super_token t \<and> (case drop 6 t of [] \<Rightarrow> True | c # _ \<Rightarrow> \<not> is_word c)) \<longleftrightarrow>
        (\<exists>post. t = super_token @ post \<and> (post = [] \<or> \<not> is_word (hd post)))"
    unfolding starts_with_iff using len by (auto split: list.splits)
  then show ?thesis unfolding super_at_def super_token_def [symmetric] by blast
qed

lemma super_search_iff:
  "super_search prev t \<longleftrightarrow>
     (\<exists>pre post. t = pre @ super_token @ post \<and>
        (if pre = [] then (case prev of None \<Rightarrow> True | Some c \<Rightarrow> \<not> is_word c)
         else \<not> is_word (last pre)) \<and>
        (post = [] \<or> \<not> is_word (hd post)))"
  (is "_ \<longleftrightarrow> ?R prev t")
proof (induction t arbitrary: prev)
  case Nil
  have "super_token \<noteq> []" by (simp add: super_token_def)
  then show ?case by simp
next
  case (Cons c cs)
  have "?R prev (c # cs) \<longleftrightarrow> super_at prev (c # cs) \<or> ?R (Some c) cs"
  proof
    assume "?R prev (c # cs)"
    then obtain pre post where p: "c # cs = pre @ super_token @ post"
      "if pre = [] then (case prev of None \<Rightarrow> True | Some c \<Rightarrow> \<not> is_word c) else \<not> is_word (last pre)"
      "post = [] \<or> \<not> is_word (hd post)" by blast
    show "super_at prev (c # cs) \<or> ?R (Some c) cs"
    proof (cases pre)
      case Nil
      with p have "super_at prev (c # cs)" unfolding super_at_iff by auto
      then show ?thesis ..
    next
      case (Cons x pre')
      with p(1) have x: "x = c" and cs: "cs = pre' @ super_token @ post" by simp_all
      from p(2) Cons x have "if pre' = [] then \<not> is_word c else \<not> is_word (last pre')"
        by (auto split: if_splits)
      then have "if pre' = [] then (case Some c of None \<Rightarrow> True | Some c \<Rightarrow> \<not> is_word c) else \<not> is_word (last pre')"
        by simp
      with cs p(3) have "?R (Some c) cs" by blast
      then show ?thesis ..
    qed
  next
    assume "super_at prev (c # cs) \<or> ?R (Some c) cs"
    then show "?R prev (c # cs)"
    proof
      assume "super_at prev (c # cs)"
      then obtain post where "c # cs = [] @ super_token @ post"
        "case prev of None \<Rightarrow> True | Some c \<Rightarrow> \<not> is_word c" "post = [] \<or> \<not> is_word (hd post)"
        unfolding super_at_iff by auto
      then show ?thesis by (intro exI [of _ "[]"] exI [of _ post]) simp
    next
      assume "?R (Some c) cs"
      then obtain pre post where p: "cs = pre @ super_token @ post"
        "if pre = [] then (case Some c of None \<Rightarrow> True | Some c \<Rightarrow> \<not> is_word c)
         else \<not> is_word (last pre)"
        "post = [] \<or> \<not> is_word (hd post)" by blast
      from p(2) have "\<not> is_word (last (c # pre))" by (simp split: if_splits)
      with p(1,3) show ?thesis
        by (intro exI [of _ "c # pre"] exI [of _ post]) simp
    qed
  qed
  with Cons.IH [of "Some c"] show ?case by simp
qed

lemma super_search_whole_word: "super_search None t = whole_word t"
  unfolding super_search_iff whole_word_def bounded_def by (auto split: if_splits)

lemma token_at_iff:
  "token_at P prev t \<longleftrightarrow>
     (case prev of None \<Rightarrow> True | Some c \<Rightarrow> \<not> P c) \<and>
     (\<exists>post. t = super_token @ post \<and> (post = [] \<or> \<not> P (hd post)))"
proof -
  have "(starts_with super_token t \<and> (case drop (length super_token) t of [] \<Rightarrow> True | c # _ \<Rightarrow> \<not> P c)) \<longleftrightarrow>
        (\<exists>post. t = super_token @ post \<and> (post = [] \<or> \<not> P (hd post)))"
    unfolding starts_with_iff by (auto split: list.splits)
  then show ?thesis unfolding token_at_def by blast
qed

lemma token_search_iff:
  "token_search P prev t \<longleftrightarrow>
     (\<exists>pre post. t = pre @ super_token @ post \<and>
        (if pre = [] then (case prev of None \<Rightarrow> True | Some c \<Rightarrow> \<not> P c)
         else \<not> P (last pre)) \<and>
        (post = [] \<or> \<not> P (hd post)))"
  (is "_ \<longleftrightarrow> ?R prev t")
proof (induction t arbitrary: prev)
  case Nil
  have "super_token \<noteq> []" by (simp add: super_token_def)
  then show ?case by simp
next
  case (Cons c cs)
  have "?R prev (c # cs) \<longleftrightarrow> token_at P prev (c # cs) \<or> ?R (Some c) cs"
  proof
    assume "?R prev (c # cs)"
    then obtain pre post where p: "c # cs = pre @ super_token @ post"
      "if pre = [] then (case prev of None \<Rightarrow> True | Some c \<Rightarrow> \<not> P c) else \<not> P (last pre)"
      "post = [] \<or> \<not> P (hd post)" by blast
    show "token_at P prev (c # cs) \<or> ?R (Some c) cs"
    proof (cases pre)
      case Nil
      with p have "token_at P prev (c # cs)" unfolding token_at_iff by auto
      then show ?thesis ..
    next
      case (Cons x pre')
      with p(1) have x: "x = c" and cs: "cs = pre' @ super_token @ post" by simp_all
      from p(2) Cons x have "if pre' = [] then \<not> P c else \<not> P (last pre')"
        by (auto split: if_splits)
      then have "if pre' = [] then (case Some c of None \<Rightarrow> True | Some c \<Rightarrow> \<not> P c) else \<not> P (last pre')"
        by simp
      with cs p(3) have "?R (Some c) cs" by blast
      then show ?thesis ..
    qed
  next
    assume "token_at P prev (c # cs) \<or> ?R (Some c) cs"
    then show "?R prev (c # cs)"
    proof
      assume "token_at P prev (c # cs)"
      then obtain post where "c # cs = [] @ super_token @ post"
        "case prev of None \<Rightarrow> True | Some c \<Rightarrow> \<not> P c" "post = [] \<or> \<not> P (hd post)"
        unfolding token_at_iff by auto
      then show ?thesis by (intro exI [of _ "[]"] exI [of _ post]) simp
    next
      assume "?R (Some c) cs"
      then obtain pre post where p: "cs = pre @ super_token @ post"
        "if pre = [] then (case Some c of None \<Rightarrow> True | Some c \<Rightarrow> \<not> P c)
         else \<not> P (last pre)"
        "post = [] \<or> \<not> P (hd post)" by blast
      from p(2) have "\<not> P (last (c # pre))" by (simp split: if_splits)
      with p(1,3) show ?thesis
        by (intro exI [of _ "c # pre"] exI [of _ post]) simp
    qed
  qed
  with Cons.IH [of "Some c"] show ?case by simp
qed

lemma bounded_search: "bounded P t = token_search P None t"
  unfolding token_search_iff bounded_def by (auto split: if_splits)

lemma contains_search: "contains_super t = token_search (\<lambda>c. False) None t"
  unfolding token_search_iff contains_super_def by (auto split: if_splits)

lemma standalone_whole_word: "standalone_super t \<Longrightarrow> whole_word t"
  unfolding standalone_super_def whole_word_def bounded_def is_ident_def by blast

lemma superTest_function:
  assumes "code_of h v = Some f"
  shows "superTest h v = whole_word (fn_text f)"
proof -
  from assms obtain a where v: "v = VRef a" by (cases v) (simp_all add: code_of_def)
  from assms have "to_text h v = fn_text f" unfolding v to_text_VRef by simp
  then show ?thesis unfolding superTest_eq super_search_whole_word by simp
qed

lemmas token_eval = bounded_search contains_search token_at_def super_token_def starts_with_def
  is_ident_def is_word_def

lemma ex5_eval:
  "get_prop ex5 1 ''f'' = VRef 4" "code_of ex5 (VRef 4) = Some supervisor_fn"
  "\<not> whole_word (fn_text supervisor_fn)" "0 < length ex5"
  "only_inside_identifier (fn_text supervisor_fn)"
  by (simp_all add: ex5_def new_function_def get_prop_def lookup_def get_own_def code_of_def
        supervisor_fn_def whole_word_def only_inside_identifier_def standalone_super_def token_eval)


lemma ex3_eval:
  "keys_of ex3 (Some 1) = [''f'', ''g'', ''n'']"
  "get_prop ex3 1 ''f'' = VRef 4" "get_prop ex3 0 ''f'' = VRef 2"
  "get_prop ex3 1 ''g'' = VRef 4" "get_prop ex3 0 ''g'' = VUndef"
  "get_prop ex3 1 ''n'' = VNum 1"
  "isFunction ex3 (VRef 4)" "isFunction ex3 (VRef 2)" "\<not> isFunction ex3 VUndef"
  "length ex3 = 6"
  "code_of ex3 (VRef 4) = Some add1_fn"
  by (simp_all add: ex3_def new_function_def keys_of_def get_prop_def lookup_def get_own_def
        isFunction_def code_of_def)

lemma add1_text: "whole_word (fn_text add1_fn)" "standalone_super (fn_text add1_fn)"
  by (simp_all add: add1_fn_def whole_word_def standalone_super_def token_eval)


text \<open>
  Claim C5, as the code has it. For a callable member the test answers whether the source
  text of the function has an occurrence of the token between word boundaries: with no
  letter, digit or underscore right before or right after it. A standalone token, one
  that is not part of a longer identifier, is such an occurrence and is detected. A
  member whose text has no such occurrence, as when the token only occurs inside
  \<open>_supervisor\<close>, is installed as it is, without a wrapper, whatever the table holds at
  that key; a member that has one is installed wrapped when the table holds a function.
  The witnesses are a member that reads \<open>this._supervisor\<close> and a member that calls
  \<open>this._super()\<close>.
\<close>

theorem heuristic_whole_word:
  "(code_of h m = Some f \<longrightarrow> superTest h m = whole_word (fn_text f)) \<and>
   (standalone_super t \<longrightarrow> whole_word t) \<and>
   (code_of h (get_prop h s k) = Some g \<and> \<not> whole_word (fn_text g) \<longrightarrow>
      wrapAll_loop h d s (k # ks) =
        (case assign_prop h d k (get_prop h s k) of
           Inl e \<Rightarrow> Inl e
         | Inr h1 \<Rightarrow> wrapAll_loop h1 d s ks)) \<and>
   (code_of h (get_prop h s k) = Some g \<and> whole_word (fn_text g) \<and> isFunction h (get_prop h d k) \<longrightarrow>
      wrapAll_loop h d s (k # ks) =
        (case assign_prop (snd (wrap h (get_prop h s k) (get_prop h d k))) d k
                (fst (wrap h (get_prop h s k) (get_prop h d k))) of
           Inl e \<Rightarrow> Inl e
         | Inr h2 \<Rightarrow> wrapAll_loop h2 d s ks))"
proof -
  have a: "superTest h m = whole_word (fn_text f)" if "code_of h m = Some f"
    using that by (rule superTest_function)
  have b: "whole_word t" if "standalone_super t"
    using that by (rule standalone_whole_word)
  have c: "wrapAll_loop h d s (k # ks) =
        (case assign_prop h d k (get_prop h s k) of
           Inl e \<Rightarrow> Inl e
         | Inr h1 \<Rightarrow> wrapAll_loop h1 d s ks)"
    if g: "code_of h (get_prop h s k) = Some g" and n: "\<not> whole_word (fn_text g)"
  proof -
    from n have "\<not> superTest h (get_prop h s k)" unfolding superTest_function [OF g] .
    then show ?thesis by (simp add: Let_def)
  qed
  have e: "wrapAll_loop h d s (k # ks) =
        (case assign_prop (snd (wrap h (get_prop h s k) (get_prop h d k))) d k
                (fst (wrap h (get_prop h s k) (get_prop h d k))) of
           Inl e \<Rightarrow> Inl e
         | Inr h2 \<Rightarrow> wrapAll_loop h2 d s ks)"
    if g: "code_of h (get_prop h s k) = Some g" and w: "whole_word (fn_text g)"
      and x: "isFunction h (get_prop h d k)"
  proof -
    from w have "superTest h (get_prop h s k)" unfolding superTest_function [OF g] .
    moreover from g have "isFunction h (get_prop h s k)" by (simp add: isFunction_code_of)
    ultimately show ?thesis using x by (simp add: Let_def split: prod.splits)
  qed
  from a b c e show ?thesis by blast
qed

theorem heuristic_whole_word_witness:
  "code_of ex5 (get_prop ex5 1 ''f'') = Some supervisor_fn \<and>
   only_inside_identifier (fn_text supervisor_fn) \<and>
   \<not> superTest ex5 (get_prop ex5 1 ''f'') \<and>
   wrapAll_loop ex5 0 1 [''f''] = Inr (set_prop ex5 0 ''f'' (VRef 4)) \<and>
   code_of ex3 (get_prop ex3 1 ''f'') = Some add1_fn \<and>
   standalone_super (fn_text add1_fn) \<and>
   superTest ex3 (get_prop ex3 1 ''f'') \<and>
   wrapAll_loop ex3 0 1 [''f''] =
     Inr (set_prop (snd (new_function ex3 (Wrap (VRef 4) (VRef 2)))) 0 ''f'' (VRef 6))"
proof -
  note T5 = heuristic_whole_word
    [where h = ex5 and m = "VRef 4" and f = supervisor_fn and t = "fn_text add1_fn"
       and s = 1 and k = "''f''" and g = supervisor_fn and d = 0 and ks = "[]",
     unfolded ex5_eval(1)]
  note T3 = heuristic_whole_word
    [where h = ex3 and m = "VRef 4" and f = add1_fn and t = "fn_text add1_fn"
       and s = 1 and k = "''f''" and g = add1_fn and d = 0 and ks = "[]",
     unfolded ex3_eval(2,3)]
  have pf: "''f'' \<notin> set fixed_members" by (simp add: fixed_members_def)
  from T5 ex5_eval(2,3) have a: "\<not> superTest ex5 (VRef 4)" by blast
  from T5 ex5_eval(2,3)
  have "wrapAll_loop ex5 0 1 [''f''] =
        (case assign_prop ex5 0 ''f'' (VRef 4) of
           Inl e \<Rightarrow> Inl e
         | Inr h1 \<Rightarrow> wrapAll_loop h1 0 1 [])" by blast
  then have b: "wrapAll_loop ex5 0 1 [''f''] = Inr (set_prop ex5 0 ''f'' (VRef 4))"
    unfolding assign_prop_plain [OF pf] by (simp only: sum.case wrapAll_loop.simps(1))
  from T3 add1_text(2) have ww: "whole_word (fn_text add1_fn)" by blast
  from T3 ex3_eval(11) ww have c: "superTest ex3 (VRef 4)" by blast
  from T3 ex3_eval(11) ww ex3_eval(8)
  have "wrapAll_loop ex3 0 1 [''f''] =
        (case assign_prop (snd (wrap ex3 (VRef 4) (VRef 2))) 0 ''f'' (fst (wrap ex3 (VRef 4) (VRef 2))) of
           Inl e \<Rightarrow> Inl e
         | Inr h2 \<Rightarrow> wrapAll_loop h2 0 1 [])" by blast
  then have e: "wrapAll_loop ex3 0 1 [''f''] =
     Inr (set_prop (snd (new_function ex3 (Wrap (VRef 4) (VRef 2)))) 0 ''f'' (VRef 6))"
    unfolding assign_prop_plain [OF pf] wrap_def
    by (simp add: new_function_def Let_def ex3_eval(10) del: wrapAll_loop.simps(2))
  show ?thesis
    unfolding ex5_eval(1) ex3_eval(2)
    using ex5_eval(2,5) a b ex3_eval(11) add1_text(2) c e by (intro conjI)
qed

text \<open>
  The claim as written fails for the identifiers that have a dollar sign next to the
  token. The text of the function at address 4 has the token only inside the longer
  identifier \<open>$_super\<close>; the test reports a super reference all the same, and the member
  is installed wrapped over the function that the table holds.
\<close>

lemma dollar_eval:
  "get_prop ex_dollar 1 ''f'' = VRef 4" "get_prop ex_dollar 0 ''f'' = VRef 2"
  "code_of ex_dollar (VRef 4) = Some dollar_fn" "isFunction ex_dollar (VRef 2)"
  "keys_of ex_dollar (Some 1) = [''f'']" "length ex_dollar = 6"
  by (simp_all add: ex_dollar_def new_function_def keys_of_def get_prop_def lookup_def get_own_def
        isFunction_def code_of_def)

lemma dollar_text:
  "only_inside_identifier (fn_text dollar_fn)" "whole_word (fn_text dollar_fn)"
  by (simp_all add: dollar_fn_def whole_word_def only_inside_identifier_def standalone_super_def
        token_eval)

theorem heuristic_detects_dollar_identifier:
  "code_of ex_dollar (get_prop ex_dollar 1 ''f'') = Some dollar_fn \<and>
   only_inside_identifier (fn_text dollar_fn) \<and>
   superTest ex_dollar (get_prop ex_dollar 1 ''f'') \<and>
   wrapAll ex_dollar (VRef 0) (Some 1) =
     Inr (set_prop (snd (new_function ex_dollar (Wrap (VRef 4) (VRef 2)))) 0 ''f'' (VRef 6)) \<and>
   code_of (set_prop (snd (new_function ex_dollar (Wrap (VRef 4) (VRef 2)))) 0 ''f'' (VRef 6)) (VRef 6) =
     Some (Wrap (VRef 4) (VRef 2))"
proof -
  have pf: "''f'' \<notin> set fixed_members" by (simp add: fixed_members_def)
  have s: "superTest ex_dollar (VRef 4)"
    unfolding superTest_function [OF dollar_eval(3)] by (rule dollar_text)
  have sw: "should_wrap ex_dollar 0 1 ''f''"
    unfolding should_wrap_def dollar_eval using s dollar_eval(3,4) by (simp add: isFunction_code_of)
  have w: "wrapAll ex_dollar (VRef 0) (Some 1) =
     Inr (set_prop (snd (new_function ex_dollar (Wrap (VRef 4) (VRef 2)))) 0 ''f'' (VRef 6))"
    unfolding wrapAll_def dollar_eval(5,6) Let_def wrapAll_loop_Cons
    using sw wrap_one_wrapped [OF sw]
    by (simp add: dollar_eval dollar_eval(1) [unfolded One_nat_def] writable_plain [OF pf]
          del: wrapAll_loop.simps(2))
  have c: "code_of (set_prop (snd (new_function ex_dollar (Wrap (VRef 4) (VRef 2)))) 0 ''f'' (VRef 6)) (VRef 6) =
     Some (Wrap (VRef 4) (VRef 2))"
    unfolding code_of_set_prop
    by (simp add: code_of_VRef lookup_def new_function_def Let_def dollar_eval(6) nth_append)
  show ?thesis
    unfolding dollar_eval(1) using dollar_eval(3) dollar_text(1) s w c by (intro conjI)
qed

section \<open>wrapAll: what is installed at each key\<close>





lemma get_prop_own:
  assumes "a < length h" "get_own (h ! a) k = Some v"
  shows "get_prop h a k = v"
proof -
  from assms(1) obtain n where n: "length h = Suc n" by (cases "length h") auto
  have l: "lookup h a = Some (h ! a)" using assms(1) by (simp add: lookup_def)
  show ?thesis unfolding get_prop_def n get_chain_Suc l using assms(2) by simp
qed

lemma key_has_own:
  assumes "k \<in> set (keys_of h (Some a))"
  shows "a < length h \<and> (\<exists>v. get_own (h ! a) k = Some v)"
proof -
  from assms have a: "a < length h" and k: "k \<in> fst ` set (props (h ! a))"
    by (auto simp: keys_of_def lookup_def split: if_splits)
  from k have "map_of (props (h ! a)) k \<noteq> None" by (simp add: map_of_eq_None_iff)
  then have "\<exists>v. get_own (h ! a) k = Some v"
    by (auto simp: get_own_def split: option.splits)
  with a show ?thesis by blast
qed

section \<open>Calls: what they leave of the heap\<close>

lemma pres_refl: "pres h h"
  by (simp add: pres_def)

lemma pres_trans: "pres h h1 \<Longrightarrow> pres h1 h2 \<Longrightarrow> pres h h2"
  by (simp add: pres_def)

lemma pres_set_prop: "pres h (set_prop h d k v)"
  by (simp add: pres_def length_set_prop nth_set_prop code_set_own)

lemma pres_set_val: "set_val h this k v = Inr h' \<Longrightarrow> pres h h'"
  by (cases this) (auto simp: set_val_def assign_prop_def pres_set_prop split: if_splits)

lemma and_then_Some:
  assumes "and_then r k = Some x"
  obtains (err) e h where "r = Some (Inl e, h)" "x = (Inl e, h)"
        | (ok) v h where "r = Some (Inr v, h)" "k v h = Some x"
  using assms by (auto simp: and_then_def split: option.splits sum.splits prod.splits)

lemma or_throw_Some:
  assumes "or_throw r h k = Some x"
  obtains (err) e where "r = Inl e" "x = (Inl e, h)"
        | (ok) v where "r = Inr v" "k v = Some x"
  using assms by (auto simp: or_throw_def split: sum.splits)

lemma pres_at_Suc:
  assumes IH: "pres_at n"
  shows "pres_at (Suc n)"
proof -
  have icall: "\<And>h f this args x h'. call n h f this args = Some (x, h') \<Longrightarrow> pres h h'"
    using IH unfolding pres_at_def by simp
  have ieval: "\<And>h this args e x h'. eval n h this args e = Some (x, h') \<Longrightarrow> pres h h'"
    using IH unfolding pres_at_def by simp
  have ievals: "\<And>h this args es x h'. eval_list n h this args es = Some (x, h') \<Longrightarrow> pres h h'"
    using IH unfolding pres_at_def by simp
  have iexec: "\<And>h this args ss x h'. exec n h this args ss = Some (x, h') \<Longrightarrow> pres h h'"
    using IH unfolding pres_at_def by simp
  have c: "pres h h'" if a: "call (Suc n) h f this args = Some (x, h')" for h f this args x h'
  proof (cases "code_of h f")
    case None
    with a show ?thesis by (simp add: pres_refl)
  next
    case (Some fn)
    show ?thesis
    proof (cases fn)
      case (Native src body)
      with a Some show ?thesis by (simp add: iexec)
    next
      case (Wrap m s)
      with a Some have w: "or_throw (get_val h this ''_super'') h (\<lambda>prevSuper.
          or_throw (set_val h this ''_super'' s) h (\<lambda>h1.
          and_then (call n h1 m this args) (\<lambda>ret h2.
          or_throw (set_val h2 this ''_super'' prevSuper) h2 (\<lambda>h3.
          Some (Inr ret, h3))))) = Some (x, h')" by simp
      from w show ?thesis
      proof (cases rule: or_throw_Some)
        case (err e)
        then show ?thesis by (simp add: pres_refl)
      next
        case (ok prev)
        from ok(2) show ?thesis
        proof (cases rule: or_throw_Some)
          case (err e)
          then show ?thesis by (simp add: pres_refl)
        next
          case (ok h1)
          then have p1: "pres h h1" by (simp add: pres_set_val)
          from ok(2) show ?thesis
          proof (cases rule: and_then_Some)
            case (err e h2)
            with icall have "pres h1 h'" by auto
            with p1 show ?thesis by (rule pres_trans)
          next
            case (ok ret h2)
            with icall have p2: "pres h1 h2" by auto
            from ok(2) show ?thesis
            proof (cases rule: or_throw_Some)
              case (err e)
              with p1 p2 show ?thesis by (auto intro: pres_trans)
            next
              case (ok h3)
              then have "pres h2 h'" by (auto simp: pres_set_val)
              with p1 p2 show ?thesis by (blast intro: pres_trans)
            qed
          qed
        qed
      qed
    next
      case (Delegate parent)
      with a Some have "and_then (call n h parent this args) (\<lambda>r h1. Some (Inr VUndef, h1)) = Some (x, h')"
        by simp
      then show ?thesis
        by (cases rule: and_then_Some) (use icall in auto)
    qed
  qed
  have e: "pres h h'" if a: "eval (Suc n) h this args ex = Some (x, h')" for h this args ex x h'
  proof (cases ex)
    case (Lit v)
    with a show ?thesis by (simp add: pres_refl)
  next
    case (Arg i)
    with a show ?thesis by (simp add: pres_refl)
  next
    case (GetThis k)
    with a show ?thesis by (simp add: pres_refl)
  next
    case (CallThis k es)
    with a have "or_throw (get_val h this k) h (\<lambda>f.
          and_then (eval_list n h this args es) (\<lambda>vs h1. call n h1 f this vs)) = Some (x, h')"
      by simp
    then show ?thesis
    proof (cases rule: or_throw_Some)
      case (err e)
      then show ?thesis by (simp add: pres_refl)
    next
      case (ok f)
      from ok(2) show ?thesis
      proof (cases rule: and_then_Some)
        case (err e h1)
        with ievals show ?thesis by auto
      next
        case (ok vs h1)
        with ievals icall show ?thesis by (blast intro: pres_trans)
      qed
    qed
  next
    case (Plus e1 e2)
    with a have "and_then (eval n h this args e1) (\<lambda>v1 h1.
          and_then (eval n h1 this args e2) (\<lambda>v2 h2.
          (case plus_val v1 v2 of None \<Rightarrow> None | Some v \<Rightarrow> Some (Inr v, h2)))) = Some (x, h')"
      by simp
    then show ?thesis
    proof (cases rule: and_then_Some)
      case (err e h1)
      with ieval show ?thesis by auto
    next
      case (ok v1 h1)
      with ieval have p1: "pres h h1" by auto
      from ok(2) show ?thesis
      proof (cases rule: and_then_Some)
        case (err e h2)
        with ieval have "pres h1 h'" by auto
        with p1 show ?thesis by (rule pres_trans)
      next
        case (ok v2 h2)
        with ieval have "pres h1 h2" by auto
        moreover from ok(2) have "h' = h2" by (auto split: option.splits)
        ultimately show ?thesis using p1 by (auto intro: pres_trans)
      qed
    qed
  qed
  have el: "pres h h'" if a: "eval_list (Suc n) h this args es = Some (x, h')" for h this args es x h'
  proof (cases es)
    case Nil
    with a show ?thesis by (simp add: pres_refl)
  next
    case (Cons e1 rest)
    with a have "and_then (eval n h this args e1) (\<lambda>v h1.
          and_then (eval_list n h1 this args rest) (\<lambda>vs h2. Some (Inr (v # vs), h2))) = Some (x, h')"
      by simp
    then show ?thesis
    proof (cases rule: and_then_Some)
      case (err e h1)
      with ieval show ?thesis by auto
    next
      case (ok v h1)
      with ieval have p1: "pres h h1" by auto
      from ok(2) show ?thesis
      proof (cases rule: and_then_Some)
        case (err e h2)
        with ievals have "pres h1 h'" by auto
        with p1 show ?thesis by (rule pres_trans)
      next
        case (ok vs h2)
        with ievals have "pres h1 h'" by auto
        with p1 show ?thesis by (rule pres_trans)
      qed
    qed
  qed
  have x: "pres h h'" if a: "exec (Suc n) h this args ss = Some (x, h')" for h this args ss x h'
  proof (cases ss)
    case Nil
    with a show ?thesis by (simp add: pres_refl)
  next
    case (Cons st rest)
    show ?thesis
    proof (cases st)
      case (SetThis k e1)
      with a Cons have "and_then (eval n h this args e1) (\<lambda>v h1.
          or_throw (set_val h1 this k v) h1 (\<lambda>h2. exec n h2 this args rest)) = Some (x, h')"
        by simp
      then show ?thesis
      proof (cases rule: and_then_Some)
        case (err e h1)
        with ieval show ?thesis by auto
      next
        case (ok v h1)
        with ieval have p1: "pres h h1" by auto
        from ok(2) show ?thesis
        proof (cases rule: or_throw_Some)
          case (err e)
          with p1 show ?thesis by simp
        next
          case (ok h2)
          then have "pres h1 h2" "pres h2 h'" using iexec by (auto simp: pres_set_val)
          with p1 show ?thesis by (blast intro: pres_trans)
        qed
      qed
    next
      case (Eval e1)
      with a Cons have "and_then (eval n h this args e1) (\<lambda>v h1. exec n h1 this args rest) = Some (x, h')"
        by simp
      then show ?thesis
      proof (cases rule: and_then_Some)
        case (err e h1)
        with ieval show ?thesis by auto
      next
        case (ok v h1)
        with ieval iexec have "pres h h1" "pres h1 h'" by auto
        then show ?thesis by (rule pres_trans)
      qed
    next
      case (Return e1)
      with a Cons show ?thesis by (simp add: ieval)
    next
      case (Throw e1)
      with a Cons have "and_then (eval n h this args e1) (\<lambda>v h1. Some (Inl (Thrown v), h1)) = Some (x, h')"
        by simp
      then show ?thesis
        by (cases rule: and_then_Some) (use ieval in auto)
    next
      case (Attempt e1)
      with a Cons have "(case eval n h this args e1 of
                           None \<Rightarrow> None
                         | Some (r, h1) \<Rightarrow> exec n h1 this args rest) = Some (x, h')"
        by simp
      then obtain r h1 where "eval n h this args e1 = Some (r, h1)"
        "exec n h1 this args rest = Some (x, h')"
        by (auto split: option.splits)
      with ieval iexec have "pres h h1" "pres h1 h'" by auto
      then show ?thesis by (rule pres_trans)
    qed
  qed
  show ?thesis unfolding pres_at_def using c e el x by blast
qed

lemma pres_at_all: "pres_at n"
proof (induction n)
  case 0
  show ?case by (simp add: pres_at_def)
next
  case (Suc n)
  then show ?case by (rule pres_at_Suc)
qed

lemma call_pres: "call n h f this args = Some (x, h') \<Longrightarrow> pres h h'"
  using pres_at_all [of n] unfolding pres_at_def by simp

section \<open>Calls: one step at a time\<close>

lemma call_Suc:
  "call (Suc n) h f this args =
     (case code_of h f of
        None \<Rightarrow> Some (Inl TypeError, h)
      | Some (Native src body) \<Rightarrow> exec n h this args body
      | Some (Wrap method superMethod) \<Rightarrow>
          or_throw (get_val h this ''_super'') h (\<lambda>prevSuper.
          or_throw (set_val h this ''_super'' superMethod) h (\<lambda>h1.
          and_then (call n h1 method this args) (\<lambda>ret h2.
          or_throw (set_val h2 this ''_super'' prevSuper) h2 (\<lambda>h3.
          Some (Inr ret, h3)))))
      | Some (Delegate parent) \<Rightarrow>
          and_then (call n h parent this args) (\<lambda>r h1. Some (Inr VUndef, h1)))"
  by simp

lemma eval_Suc:
  "eval (Suc n) h this args (Lit v) = Some (Inr v, h)"
  "eval (Suc n) h this args (Arg i) = Some (Inr (if i < length args then args ! i else VUndef), h)"
  "eval (Suc n) h this args (GetThis k) = Some (get_val h this k, h)"
  "eval (Suc n) h this args (CallThis k es) =
     or_throw (get_val h this k) h (\<lambda>f.
     and_then (eval_list n h this args es) (\<lambda>vs h1. call n h1 f this vs))"
  "eval (Suc n) h this args (Plus e1 e2) =
     and_then (eval n h this args e1) (\<lambda>v1 h1.
     and_then (eval n h1 this args e2) (\<lambda>v2 h2.
     (case plus_val v1 v2 of None \<Rightarrow> None | Some v \<Rightarrow> Some (Inr v, h2))))"
  by simp_all

lemma eval_list_Suc:
  "eval_list (Suc n) h this args [] = Some (Inr [], h)"
  "eval_list (Suc n) h this args (e # rest) =
     and_then (eval n h this args e) (\<lambda>v h1.
     and_then (eval_list n h1 this args rest) (\<lambda>vs h2. Some (Inr (v # vs), h2)))"
  by simp_all

lemma exec_Suc:
  "exec (Suc n) h this args [] = Some (Inr VUndef, h)"
  "exec (Suc n) h this args (SetThis k e # rest) =
     and_then (eval n h this args e) (\<lambda>v h1.
     or_throw (set_val h1 this k v) h1 (\<lambda>h2. exec n h2 this args rest))"
  "exec (Suc n) h this args (Eval e # rest) =
     and_then (eval n h this args e) (\<lambda>v h1. exec n h1 this args rest)"
  "exec (Suc n) h this args (Return e # rest) = eval n h this args e"
  "exec (Suc n) h this args (Throw e # rest) =
     and_then (eval n h this args e) (\<lambda>v h1. Some (Inl (Thrown v), h1))"
  "exec (Suc n) h this args (Attempt e # rest) =
     (case eval n h this args e of
        None \<Rightarrow> None
      | Some (r, h1) \<Rightarrow> exec n h1 this args rest)"
  by simp_all

declare call.simps(2) [simp del] eval.simps(2) [simp del] eval_list.simps(2) [simp del]
  exec.simps(2) [simp del]

lemma and_then_simps:
  "and_then None k = None"
  "and_then (Some (Inl e, h)) k = Some (Inl e, h)"
  "and_then (Some (Inr v, h)) k = k v h"
  by (simp_all add: and_then_def)

lemma or_throw_simps:
  "or_throw (Inl e) h k = Some (Inl e, h)"
  "or_throw (Inr v) h k = k v"
  by (simp_all add: or_throw_def)

lemma get_val_ref: "r < length h \<Longrightarrow> get_val h (VRef r) k = Inr (get_prop h r k)"
  by (simp add: get_val_def)

lemma set_val_ref:
  "r < length h \<Longrightarrow> k \<notin> set fixed_members \<Longrightarrow> set_val h (VRef r) k v = Inr (set_prop h r k v)"
  by (simp add: set_val_def assign_prop_plain)

lemma call_wrapped:
  assumes f: "code_of h f = Some (Wrap m s)" and r: "r < length h"
  shows "call (Suc n) h f (VRef r) args =
           (case call n (set_prop h r ''_super'' s) m (VRef r) args of
              None \<Rightarrow> None
            | Some (Inl e, h2) \<Rightarrow> Some (Inl e, h2)
            | Some (Inr v, h2) \<Rightarrow> Some (Inr v, set_prop h2 r ''_super'' (get_prop h r ''_super'')))"
proof -
  let ?h1 = "set_prop h r ''_super'' s"
  have eq: "call (Suc n) h f (VRef r) args =
          and_then (call n ?h1 m (VRef r) args) (\<lambda>ret h2.
          or_throw (set_val h2 (VRef r) ''_super'' (get_prop h r ''_super'')) h2 (\<lambda>h3.
          Some (Inr ret, h3)))"
    using r by (simp add: call_Suc f get_val_ref set_val_ref super_plain or_throw_simps)
  show ?thesis
  proof (cases "call n ?h1 m (VRef r) args")
    case None
    then show ?thesis unfolding eq by (simp add: and_then_simps)
  next
    case (Some res)
    obtain x h2 where res: "res = (x, h2)" by (cases res)
    from Some res have "pres ?h1 h2" by (auto dest: call_pres)
    then have "r < length h2" using r by (simp add: pres_def length_set_prop)
    then have "set_val h2 (VRef r) ''_super'' (get_prop h r ''_super'') =
               Inr (set_prop h2 r ''_super'' (get_prop h r ''_super''))"
      using super_plain by (rule set_val_ref)
    then show ?thesis unfolding eq Some res
      by (cases x) (simp_all add: and_then_simps or_throw_simps)
  qed
qed

lemma call_add1:
  assumes "code_of h m = Some add1_fn" "r < length h"
  shows "call (Suc (Suc (Suc (Suc (Suc e))))) h m (VRef r) [] =
           and_then (call (Suc e) h (get_prop h r ''_super'') (VRef r) [])
             (\<lambda>v1 h1. case plus_val v1 (VNum 1) of None \<Rightarrow> None | Some v \<Rightarrow> Some (Inr v, h1))"
  using assms
  by (simp add: call_Suc [of "Suc (Suc (Suc (Suc e)))"] add1_fn_def exec_Suc eval_Suc eval_list_Suc
      get_val_ref or_throw_simps and_then_simps)

lemma call_base:
  assumes "code_of h b = Some base_fn"
  shows "call (Suc (Suc (Suc e))) h b this [] = Some (Inr (VNum 10), h)"
  using assms by (simp add: call_Suc base_fn_def exec_Suc eval_Suc)

lemma call_throw:
  assumes "code_of h m = Some throw_fn"
  shows "call (Suc (Suc (Suc e))) h m this args = Some (Inl (Thrown (VStr ''boom'')), h)"
  using assms by (simp add: call_Suc throw_fn_def exec_Suc eval_Suc and_then_simps)

section \<open>Override chains of any depth\<close>

lemma agrees_refl: "agrees h h"
  by (simp add: agrees_def)

lemma agrees_pres: "agrees h0 h \<Longrightarrow> pres h h' \<Longrightarrow> agrees h0 h'"
  by (simp add: agrees_def pres_def)

lemma agrees_code_of:
  assumes "agrees h0 h" "code_of h0 v = Some f"
  shows "code_of h v = Some f"
proof (cases v)
  case (VRef a)
  with assms(2) have a: "a < length h0" "code (h0 ! a) = Some f"
    by (auto simp: code_of_VRef lookup_def split: if_splits)
  with assms(1) have "a < length h" "code (h ! a) = Some f" by (auto simp: agrees_def)
  then show ?thesis by (simp add: VRef code_of_VRef lookup_def)
qed (use assms(2) in \<open>simp_all add: code_of_def\<close>)

lemma agrees_append: "agrees (h0 @ hs) h \<Longrightarrow> agrees h0 h"
  by (auto simp: agrees_def nth_append)

lemma chain_of_Suc:
  "chain_of h m b (Suc k) =
     (VRef (length (snd (chain_of h m b k))),
      snd (new_function (snd (chain_of h m b k)) (Wrap m (fst (chain_of h m b k)))))"
  by (simp add: wrap_def new_function_def Let_def split: prod.splits)

lemma chain_of_extends: "\<exists>hs. snd (chain_of h m b k) = h @ hs"
proof (induction k)
  case 0
  show ?case by simp
next
  case (Suc k)
  then obtain hs where "snd (chain_of h m b k) = h @ hs" by blast
  then show ?case by (simp add: chain_of_Suc new_function_def Let_def del: chain_of.simps(2))
qed

lemma chain_result:
  assumes m: "code_of h0 m = Some add1_fn" and b: "code_of h0 b = Some base_fn"
    and r: "r < length h0"
  shows "agrees (snd (chain_of h0 m b k)) h \<Longrightarrow> 5 * k + 3 \<le> n \<Longrightarrow>
         \<exists>h'. call n h (fst (chain_of h0 m b k)) (VRef r) [] = Some (Inr (VNum (10 + int k)), h') \<and>
              pres h h' \<and> get_prop h' r ''_super'' = get_prop h r ''_super''"
proof (induction k arbitrary: h n)
  case 0
  from 0(2) have "3 \<le> n" by simp
  then obtain e' where "n = 3 + e'" using le_Suc_ex by blast
  then obtain e where n: "n = Suc (Suc (Suc e))" by simp
  from 0 have "code_of h b = Some base_fn" using b by (simp add: agrees_code_of)
  then show ?case by (simp add: n call_base pres_refl)
next
  case (Suc k)
  let ?hk = "snd (chain_of h0 m b k)" and ?sk = "fst (chain_of h0 m b k)"
  let ?f = "Wrap m ?sk"
  obtain hs where hk: "?hk = h0 @ hs" using chain_of_extends by blast
  have ag1: "agrees (snd (new_function ?hk ?f)) h"
    using Suc.prems(1) unfolding chain_of_Suc snd_conv .
  obtain hs' where nf: "snd (new_function ?hk ?f) = ?hk @ hs'" using new_function_append by blast
  have agk: "agrees ?hk h" using ag1 unfolding nf by (rule agrees_append)
  have ag0: "agrees h0 h" using agk unfolding hk by (rule agrees_append)
  have rh: "r < length h" using ag0 r by (simp add: agrees_def)
  have cw: "code_of h (VRef (length ?hk)) = Some ?f"
  proof -
    have "code_of (snd (new_function ?hk ?f)) (VRef (length ?hk)) = Some ?f"
      by (simp add: code_of_VRef lookup_def length_new_function code_new_function)
    with ag1 show ?thesis by (rule agrees_code_of)
  qed
  from Suc.prems(2) obtain e where n: "n = Suc (Suc (Suc (Suc (Suc (Suc e)))))" and e: "5 * k + 3 \<le> Suc e"
  proof -
    from Suc.prems(2) have "6 \<le> n" by simp
    then obtain e where "n = 6 + e" using le_Suc_ex by blast
    then have "n = Suc (Suc (Suc (Suc (Suc (Suc e)))))" by simp
    moreover from this Suc.prems(2) have "5 * k + 3 \<le> Suc e" by simp
    ultimately show ?thesis using that by blast
  qed
  let ?h1 = "set_prop h r ''_super'' ?sk"
  have p1: "pres h ?h1" by (rule pres_set_prop)
  have r1: "r < length ?h1" using rh by (simp add: length_set_prop)
  have slot: "get_prop ?h1 r ''_super'' = ?sk" using rh by (rule get_prop_set_prop_same)
  have agk1: "agrees ?hk ?h1" using agk p1 by (rule agrees_pres)
  from Suc.IH [OF agk1 e] obtain h1' where
    inner: "call (Suc e) ?h1 ?sk (VRef r) [] = Some (Inr (VNum (10 + int k)), h1')"
    and p2: "pres ?h1 h1'" and "get_prop h1' r ''_super'' = get_prop ?h1 r ''_super''"
    by blast
  have cm: "code_of ?h1 m = Some add1_fn"
    using agrees_pres [OF ag0 p1] m by (rule agrees_code_of)
  have body: "call (Suc (Suc (Suc (Suc (Suc e))))) ?h1 m (VRef r) [] =
              Some (Inr (VNum (10 + int (Suc k))), h1')"
    unfolding call_add1 [OF cm r1] slot inner and_then_simps by simp
  let ?h' = "set_prop h1' r ''_super'' (get_prop h r ''_super'')"
  have res: "call n h (fst (chain_of h0 m b (Suc k))) (VRef r) [] = Some (Inr (VNum (10 + int (Suc k))), ?h')"
    unfolding n chain_of_Suc fst_conv call_wrapped [OF cw rh] body by (simp del: chain_of.simps)
  have r1': "r < length h1'" using p2 r1 by (simp add: pres_def)
  have "pres h ?h'" using p1 p2 pres_set_prop [of h1' r "''_super''" "get_prop h r ''_super''"]
    by (blast intro: pres_trans)
  moreover have "get_prop ?h' r ''_super'' = get_prop h r ''_super''"
    using r1' by (rule get_prop_set_prop_same)
  ultimately show ?case using res by blast
qed

lemma chain3_eval:
  "chain_of (snd (new_function (snd (new_function [empty_obj] base_fn)) add1_fn)) (VRef 3) (VRef 1) 3 =
     (VRef 9, chain3)"
  "code_of (snd (new_function (snd (new_function [empty_obj] base_fn)) add1_fn)) (VRef 3) = Some add1_fn"
  "code_of (snd (new_function (snd (new_function [empty_obj] base_fn)) add1_fn)) (VRef 1) = Some base_fn"
  "length (snd (new_function (snd (new_function [empty_obj] base_fn)) add1_fn)) = 5"
  "get_prop chain3 0 ''_super'' = VUndef"
  by (simp_all add: chain3_def numeral_3_eq_3 wrap_def new_function_def Let_def code_of_def
        lookup_def get_prop_def get_own_def empty_obj_def)

lemma chain3_level1:
  "code_of chain3 (VRef 5) = Some (Wrap (VRef 3) (VRef 1))"
  "code_of chain3 (VRef 3) = Some add1_fn"
  "code_of chain3 (VRef 1) = Some base_fn"
  "length chain3 = 11"
  by (simp_all add: chain3_def wrap_def new_function_def Let_def code_of_def lookup_def)

lemma chain3_inner:
  "call 7 (set_prop chain3 0 ''_super'' (VRef 1)) (VRef 3) (VRef 0) [] =
     Some (Inr (VNum 11), set_prop chain3 0 ''_super'' (VRef 1))"
proof -
  let ?h1 = "set_prop chain3 0 ''_super'' (VRef 1)"
  have m: "code_of ?h1 (VRef 3) = Some add1_fn" by (simp only: code_of_set_prop chain3_level1)
  have b: "code_of ?h1 (VRef 1) = Some base_fn" by (simp only: code_of_set_prop chain3_level1)
  have l: "0 < length chain3" unfolding chain3_level1 by simp
  then have r: "0 < length ?h1" by (simp add: length_set_prop)
  have slot: "get_prop ?h1 0 ''_super'' = VRef 1" using l by (rule get_prop_set_prop_same)
  have "call (Suc (Suc (Suc (Suc (Suc (Suc (Suc 0))))))) ?h1 (VRef 3) (VRef 0) [] =
          Some (Inr (VNum 11), ?h1)"
    unfolding call_add1 [OF m r] slot call_base [OF b] and_then_simps by simp
  moreover have "Suc (Suc (Suc (Suc (Suc (Suc (Suc 0)))))) = 7" by simp
  ultimately show ?thesis by simp
qed

lemma throwing_eval:
  "length throwing = 7"
  "code_of throwing (VRef 5) = Some (Wrap (VRef 3) (VRef 1))"
  "code_of throwing (VRef 3) = Some throw_fn"
  "code_of throwing (VRef 1) = Some base_fn"
  "get_prop throwing 0 ''_super'' = VUndef"
  by (simp_all add: throwing_def wrap_def new_function_def Let_def code_of_def lookup_def
        get_prop_def get_own_def empty_obj_def)

lemma throwing_inner:
  "call 3 (set_prop throwing 0 ''_super'' (VRef 1)) (VRef 3) (VRef 0) [] =
     Some (Inl (Thrown (VStr ''boom'')), set_prop throwing 0 ''_super'' (VRef 1))"
proof -
  have "code_of (set_prop throwing 0 ''_super'' (VRef 1)) (VRef 3) = Some throw_fn"
    by (simp only: code_of_set_prop throwing_eval)
  then show ?thesis unfolding numeral_3_eq_3 by (rule call_throw)
qed

section \<open>A failure caught inside a wrapped method\<close>

lemma catching_eval:
  "length catching = 13"
  "code_of catching (VRef 11) = Some (Wrap (VRef 7) (VRef 1))"
  "code_of catching (VRef 9) = Some (Wrap (VRef 3) (VRef 5))"
  "code_of catching (VRef 7) = Some catch_fn"
  "code_of catching (VRef 5) = Some a_fn"
  "code_of catching (VRef 3) = Some throw_fn"
  "code_of catching (VRef 1) = Some base_fn"
  "get_prop catching 0 ''_super'' = VUndef"
  "get_prop catching 0 ''inner'' = VRef 9"
  by (simp_all add: catching_def wrap_def new_function_def Let_def code_of_def lookup_def
        get_prop_def get_own_def)

lemma call_a:
  assumes "code_of h f = Some a_fn"
  shows "call (Suc (Suc (Suc e))) h f this args = Some (Inr (VStr ''A''), h)"
  using assms by (simp add: call_Suc a_fn_def exec_Suc eval_Suc)

lemma catching_inner:
  "eval (Suc (Suc (Suc (Suc (Suc (Suc e)))))) (set_prop catching 0 ''_super'' (VRef 1)) (VRef 0) []
        (CallThis ''inner'' []) =
     Some (Inl (Thrown (VStr ''boom'')),
           set_prop (set_prop catching 0 ''_super'' (VRef 1)) 0 ''_super'' (VRef 5))"
proof -
  let ?h1 = "set_prop catching 0 ''_super'' (VRef 1)"
  let ?h2 = "set_prop ?h1 0 ''_super'' (VRef 5)"
  have l: "0 < length ?h1" by (simp add: length_set_prop catching_eval)
  have g: "get_prop ?h1 0 ''inner'' = VRef 9"
    by (simp add: get_prop_set_prop_other catching_eval)
  have w: "code_of ?h1 (VRef 9) = Some (Wrap (VRef 3) (VRef 5))"
    by (simp only: code_of_set_prop catching_eval)
  have t: "code_of ?h2 (VRef 3) = Some throw_fn"
    by (simp only: code_of_set_prop catching_eval)
  have c3: "call (Suc (Suc (Suc (Suc e)))) ?h2 (VRef 3) (VRef 0) [] = Some (Inl (Thrown (VStr ''boom'')), ?h2)"
    using t by (rule call_throw)
  have c4: "call (Suc (Suc (Suc (Suc (Suc e))))) ?h1 (VRef 9) (VRef 0) [] = Some (Inl (Thrown (VStr ''boom'')), ?h2)"
    unfolding call_wrapped [OF w l] c3 by simp
  show ?thesis
    unfolding eval_Suc eval_list_Suc get_val_ref [OF l] g or_throw_simps and_then_simps c4 ..
qed

lemma catching_slot:
  "get_prop (set_prop (set_prop catching 0 ''_super'' (VRef 1)) 0 ''_super'' (VRef 5)) 0 ''_super'' = VRef 5"
  by (rule get_prop_set_prop_same) (simp add: length_set_prop catching_eval)

lemma catching_body:
  "call (Suc (Suc (Suc (Suc (Suc (Suc (Suc (Suc e))))))))
        (set_prop catching 0 ''_super'' (VRef 1)) (VRef 7) (VRef 0) [] =
     Some (Inr (VStr ''A''), set_prop (set_prop catching 0 ''_super'' (VRef 1)) 0 ''_super'' (VRef 5))"
proof -
  let ?h1 = "set_prop catching 0 ''_super'' (VRef 1)"
  let ?h2 = "set_prop ?h1 0 ''_super'' (VRef 5)"
  have c: "code_of ?h1 (VRef 7) = Some catch_fn" by (simp only: code_of_set_prop catching_eval)
  have a: "code_of ?h2 (VRef 5) = Some a_fn" by (simp only: code_of_set_prop catching_eval)
  have l2: "0 < length ?h2" by (simp add: length_set_prop catching_eval)
  have ca: "call (Suc (Suc (Suc (Suc e)))) ?h2 (VRef 5) (VRef 0) [] = Some (Inr (VStr ''A''), ?h2)"
    using a by (rule call_a)
  have r: "exec (Suc (Suc (Suc (Suc (Suc (Suc e)))))) ?h2 (VRef 0) [] [Return (CallThis ''_super'' [])] =
             Some (Inr (VStr ''A''), ?h2)"
    unfolding exec_Suc eval_Suc eval_list_Suc get_val_ref [OF l2] catching_slot or_throw_simps
      and_then_simps ca ..
  show ?thesis
    unfolding call_Suc c option.case fn.case catch_fn_def exec_Suc(6) catching_inner option.case
      prod.case r ..
qed

lemma catching_outer:
  "call 12 catching (VRef 11) (VRef 0) [] =
     Some (Inr (VStr ''A''),
           set_prop (set_prop (set_prop catching 0 ''_super'' (VRef 1)) 0 ''_super'' (VRef 5))
             0 ''_super'' VUndef)"
proof -
  have l: "0 < length catching" unfolding catching_eval by simp
  have n: "12 = Suc (Suc (Suc (Suc (Suc (Suc (Suc (Suc (Suc (Suc (Suc (Suc 0)))))))))))" by simp
  show ?thesis
    unfolding n call_wrapped [OF catching_eval(2) l] catching_body catching_eval by simp
qed

section \<open>The wrapper and the super slot\<close>

text \<open>
  Claim C2, as the code has it. A wrapper of \<open>m\<close> over \<open>s\<close>, called on a receiver, starts
  \<open>m\<close> in the heap where the receiver's \<open>_super\<close> is \<open>s\<close>; when \<open>m\<close> returns a value, the
  wrapper returns it and \<open>_super\<close> reads as it did before the call. This holds for every
  call of a wrapper, the nested ones too: a wrapped call that returns a value leaves
  \<open>_super\<close> as it found it. Chains of any depth resolve in order: \<open>k\<close> levels that each add
  1 to their super, over a function returning 10, return \<open>10 + k\<close> when the bound is at
  least \<open>5 k + 3\<close>, and leave \<open>_super\<close> as it was. The witness is the chain of depth 3: it
  returns 13 and \<open>_super\<close> is \<open>undefined\<close> afterwards, as before.
\<close>

theorem wrapper_binds_and_restores:
  "(code_of h f = Some (Wrap m s) \<and> r < length h \<longrightarrow>
      get_prop (set_prop h r ''_super'' s) r ''_super'' = s \<and>
      (\<forall>v h2. call n (set_prop h r ''_super'' s) m (VRef r) args = Some (Inr v, h2) \<longrightarrow>
         call (Suc n) h f (VRef r) args =
           Some (Inr v, set_prop h2 r ''_super'' (get_prop h r ''_super'')) \<and>
         get_prop (set_prop h2 r ''_super'' (get_prop h r ''_super'')) r ''_super'' =
           get_prop h r ''_super'')) \<and>
   (code_of h f = Some (Wrap m s) \<and> r < length h \<and>
    call (Suc n) h f (VRef r) args = Some (Inr v3, h3) \<longrightarrow>
      get_prop h3 r ''_super'' = get_prop h r ''_super'') \<and>
   (code_of h0 mm = Some add1_fn \<and> code_of h0 b = Some base_fn \<and> r0 < length h0 \<and>
    agrees (snd (chain_of h0 mm b k)) hk \<and> 5 * k + 3 \<le> nk \<longrightarrow>
      (\<exists>h'. call nk hk (fst (chain_of h0 mm b k)) (VRef r0) [] = Some (Inr (VNum (10 + int k)), h') \<and>
            get_prop h' r0 ''_super'' = get_prop hk r0 ''_super''))"
proof -
  have one: "get_prop (set_prop h r ''_super'' s) r ''_super'' = s \<and>
      (\<forall>v h2. call n (set_prop h r ''_super'' s) m (VRef r) args = Some (Inr v, h2) \<longrightarrow>
         call (Suc n) h f (VRef r) args =
           Some (Inr v, set_prop h2 r ''_super'' (get_prop h r ''_super'')) \<and>
         get_prop (set_prop h2 r ''_super'' (get_prop h r ''_super'')) r ''_super'' =
           get_prop h r ''_super'')"
    if f: "code_of h f = Some (Wrap m s)" and r: "r < length h"
  proof (intro conjI allI impI)
    show "get_prop (set_prop h r ''_super'' s) r ''_super'' = s"
      using r by (rule get_prop_set_prop_same)
  next
    fix v h2
    assume c: "call n (set_prop h r ''_super'' s) m (VRef r) args = Some (Inr v, h2)"
    show "call (Suc n) h f (VRef r) args =
           Some (Inr v, set_prop h2 r ''_super'' (get_prop h r ''_super''))"
      unfolding call_wrapped [OF f r] c by simp
  next
    fix v h2
    assume c: "call n (set_prop h r ''_super'' s) m (VRef r) args = Some (Inr v, h2)"
    from c have "pres (set_prop h r ''_super'' s) h2" by (rule call_pres)
    then have "r < length h2" using r by (simp add: pres_def length_set_prop)
    then show "get_prop (set_prop h2 r ''_super'' (get_prop h r ''_super'')) r ''_super'' =
           get_prop h r ''_super''" by (rule get_prop_set_prop_same)
  qed
  have two: "get_prop h3 r ''_super'' = get_prop h r ''_super''"
    if f: "code_of h f = Some (Wrap m s)" and r: "r < length h"
      and c: "call (Suc n) h f (VRef r) args = Some (Inr v3, h3)"
  proof -
    from c obtain h2 where i: "call n (set_prop h r ''_super'' s) m (VRef r) args = Some (Inr v3, h2)"
      and h3: "h3 = set_prop h2 r ''_super'' (get_prop h r ''_super'')"
      unfolding call_wrapped [OF f r] by (auto split: option.splits sum.splits)
    from i have "pres (set_prop h r ''_super'' s) h2" by (rule call_pres)
    then have "r < length h2" using r by (simp add: pres_def length_set_prop)
    then show ?thesis unfolding h3 by (rule get_prop_set_prop_same)
  qed
  have deep: "\<exists>h'. call nk hk (fst (chain_of h0 mm b k)) (VRef r0) [] = Some (Inr (VNum (10 + int k)), h') \<and>
            get_prop h' r0 ''_super'' = get_prop hk r0 ''_super''"
    if "code_of h0 mm = Some add1_fn" "code_of h0 b = Some base_fn" "r0 < length h0"
       "agrees (snd (chain_of h0 mm b k)) hk" "5 * k + 3 \<le> nk"
    using chain_result [OF that] by blast
  from one two deep show ?thesis by blast
qed

theorem wrapper_binds_and_restores_witness:
  "code_of chain3 (VRef 5) = Some (Wrap (VRef 3) (VRef 1)) \<and> 0 < length chain3 \<and>
   get_prop (set_prop chain3 0 ''_super'' (VRef 1)) 0 ''_super'' = VRef 1 \<and>
   call (Suc 7) chain3 (VRef 5) (VRef 0) [] =
     Some (Inr (VNum 11),
           set_prop (set_prop chain3 0 ''_super'' (VRef 1)) 0 ''_super'' (get_prop chain3 0 ''_super'')) \<and>
   get_prop (set_prop (set_prop chain3 0 ''_super'' (VRef 1)) 0 ''_super'' (get_prop chain3 0 ''_super''))
     0 ''_super'' = VUndef \<and>
   (\<exists>h'. call 18 chain3 (VRef 9) (VRef 0) [] = Some (Inr (VNum 13), h') \<and>
         get_prop h' 0 ''_super'' = VUndef)"
proof -
  let ?h0 = "snd (new_function (snd (new_function [empty_obj] base_fn)) add1_fn)"
  let ?after = "set_prop (set_prop chain3 0 ''_super'' (VRef 1)) 0 ''_super'' (get_prop chain3 0 ''_super'')"
  have r: "0 < length ?h0" unfolding chain3_eval by simp
  have l: "0 < length chain3" unfolding chain3_level1 by simp
  have ag: "agrees (snd (chain_of ?h0 (VRef 3) (VRef 1) 3)) chain3"
    unfolding chain3_eval snd_conv by (rule agrees_refl)
  have n: "5 * 3 + 3 \<le> (18::nat)" by simp
  note T = wrapper_binds_and_restores
    [where h = chain3 and f = "VRef 5" and m = "VRef 3" and s = "VRef 1" and r = 0 and n = 7
       and args = "[]" and ?v3.0 = "VNum 11" and ?h3.0 = ?after
       and ?h0.0 = ?h0 and mm = "VRef 3" and b = "VRef 1" and ?r0.0 = 0 and k = 3
       and hk = chain3 and nk = 18]
  note T1 = T [THEN conjunct1] and T2 = T [THEN conjunct2, THEN conjunct1]
    and T3 = T [THEN conjunct2, THEN conjunct2]
  from T3 chain3_eval(2,3) r ag n
  have "\<exists>h'. call 18 chain3 (fst (chain_of ?h0 (VRef 3) (VRef 1) 3)) (VRef 0) [] =
           Some (Inr (VNum (10 + int 3)), h') \<and> get_prop h' 0 ''_super'' = get_prop chain3 0 ''_super''"
    by blast
  then have deep: "\<exists>h'. call 18 chain3 (VRef 9) (VRef 0) [] = Some (Inr (VNum 13), h') \<and>
         get_prop h' 0 ''_super'' = VUndef"
    unfolding chain3_eval fst_conv by simp
  from T1 chain3_level1(1) l chain3_inner
  have one: "get_prop (set_prop chain3 0 ''_super'' (VRef 1)) 0 ''_super'' = VRef 1 \<and>
     call (Suc 7) chain3 (VRef 5) (VRef 0) [] = Some (Inr (VNum 11), ?after)"
    by blast
  from T2 chain3_level1(1) l one
  have "get_prop ?after 0 ''_super'' = get_prop chain3 0 ''_super''" by blast
  then have two: "get_prop ?after 0 ''_super'' = VUndef" unfolding chain3_eval(5) .
  from one two deep chain3_level1(1) l show ?thesis by blast
qed

text \<open>
  The claim as written fails: the slot does not hold the shadowed function for as long as
  the body runs. The wrapper at address 11 shadows the function returning 10. Its method
  calls \<open>this.inner()\<close>, a wrapped method that fails, and catches the failure; line 34 of
  the inner wrapper was not reached, so from then on the slot holds the function that
  \<open>inner\<close> shadows, and \<open>this._super()\<close> in the body runs that one: the wrapper returns
  \<open>A\<close>, not 10.
\<close>

theorem wrapper_slot_lost_in_body:
  "code_of catching (VRef 11) = Some (Wrap (VRef 7) (VRef 1)) \<and>
   code_of catching (VRef 7) = Some catch_fn \<and>
   eval 6 (set_prop catching 0 ''_super'' (VRef 1)) (VRef 0) [] (CallThis ''inner'' []) =
     Some (Inl (Thrown (VStr ''boom'')),
           set_prop (set_prop catching 0 ''_super'' (VRef 1)) 0 ''_super'' (VRef 5)) \<and>
   get_prop (set_prop (set_prop catching 0 ''_super'' (VRef 1)) 0 ''_super'' (VRef 5)) 0 ''_super'' \<noteq>
     VRef 1 \<and>
   call 12 catching (VRef 11) (VRef 0) [] =
     Some (Inr (VStr ''A''),
           set_prop (set_prop (set_prop catching 0 ''_super'' (VRef 1)) 0 ''_super'' (VRef 5))
             0 ''_super'' VUndef)"
proof -
  have "6 = Suc (Suc (Suc (Suc (Suc (Suc 0)))))" by simp
  then have i: "eval 6 (set_prop catching 0 ''_super'' (VRef 1)) (VRef 0) [] (CallThis ''inner'' []) =
     Some (Inl (Thrown (VStr ''boom'')),
           set_prop (set_prop catching 0 ''_super'' (VRef 1)) 0 ''_super'' (VRef 5))"
    by (simp only: catching_inner)
  have s: "get_prop (set_prop (set_prop catching 0 ''_super'' (VRef 1)) 0 ''_super'' (VRef 5)) 0 ''_super'' \<noteq>
     VRef 1" unfolding catching_slot by simp
  from catching_eval(2,4) i s catching_outer show ?thesis by (intro conjI)
qed

text \<open>
  Claim C1, as the code has it. When the wrapped method raises a failure, the wrapper
  passes the failure on with the heap as the method left it: line 34 is not reached, and
  the slot is restored on a normal return only.
\<close>

theorem wrap_failure_propagates:
  assumes "code_of h f = Some (Wrap m s)" and "r < length h"
    and "call n (set_prop h r ''_super'' s) m (VRef r) args = Some (Inl e, h2)"
  shows "call (Suc n) h f (VRef r) args = Some (Inl e, h2)"
proof -
  have "call (Suc n) h f (VRef r) args =
          (case call n (set_prop h r ''_super'' s) m (VRef r) args of
             None \<Rightarrow> None
           | Some (Inl e, h2) \<Rightarrow> Some (Inl e, h2)
           | Some (Inr v, h2) \<Rightarrow> Some (Inr v, set_prop h2 r ''_super'' (get_prop h r ''_super'')))"
    using assms(1,2) by (rule call_wrapped)
  also have "\<dots> = Some (Inl e, h2)" unfolding assms(3) by simp
  finally show ?thesis .
qed

theorem wrap_failure_propagates_witness:
  "code_of throwing (VRef 5) = Some (Wrap (VRef 3) (VRef 1)) \<and> 0 < length throwing \<and>
   call (Suc 3) throwing (VRef 5) (VRef 0) [] =
     Some (Inl (Thrown (VStr ''boom'')), set_prop throwing 0 ''_super'' (VRef 1))"
proof -
  have l: "0 < length throwing" unfolding throwing_eval by simp
  from wrap_failure_propagates [OF throwing_eval(2) l throwing_inner] throwing_eval(2) l
  show ?thesis by blast
qed

text \<open>
  The claim as written fails: the wrapper of a throwing method over another function,
  called on a receiver without \<open>_super\<close>, passes the failure on and leaves \<open>_super\<close>
  holding the shadowed function.
\<close>

theorem wrap_leaves_slot_on_throw:
  "call 4 throwing (VRef 5) (VRef 0) [] =
     Some (Inl (Thrown (VStr ''boom'')), set_prop throwing 0 ''_super'' (VRef 1)) \<and>
   get_prop (set_prop throwing 0 ''_super'' (VRef 1)) 0 ''_super'' = VRef 1 \<and>
   get_prop throwing 0 ''_super'' = VUndef \<and>
   get_prop (set_prop throwing 0 ''_super'' (VRef 1)) 0 ''_super'' \<noteq> get_prop throwing 0 ''_super''"
proof -
  have l: "0 < length throwing" unfolding throwing_eval by simp
  have "call (Suc 3) throwing (VRef 5) (VRef 0) [] =
     Some (Inl (Thrown (VStr ''boom'')), set_prop throwing 0 ''_super'' (VRef 1))"
    unfolding call_wrapped [OF throwing_eval(2) l] throwing_inner by simp
  moreover have "Suc 3 = 4" by simp
  ultimately have a: "call 4 throwing (VRef 5) (VRef 0) [] =
     Some (Inl (Thrown (VStr ''boom'')), set_prop throwing 0 ''_super'' (VRef 1))" by simp
  have b: "get_prop (set_prop throwing 0 ''_super'' (VRef 1)) 0 ''_super'' = VRef 1"
    using l by (rule get_prop_set_prop_same)
  from a b throwing_eval(5) show ?thesis by simp
qed

section \<open>extend: what it leaves of the heap\<close>

lemma frame_refl: "frame h ds h"
  by (simp add: frame_def)

lemma frame_trans: "frame h ds h1 \<Longrightarrow> frame h1 ds h2 \<Longrightarrow> frame h ds h2"
  by (auto simp: frame_def)

lemma frame_trans_within:
  assumes "frame h ds h1" "frame h1 es h2" "\<And>a. a \<in> es \<Longrightarrow> a < length h \<Longrightarrow> a \<in> ds"
  shows "frame h ds h2"
  using assms unfolding frame_def by (metis le_trans less_le_trans)

lemma frame_mono: "frame h ds h' \<Longrightarrow> ds \<subseteq> es \<Longrightarrow> frame h es h'"
  by (auto simp: frame_def)

lemma frame_set_prop: "frame h {d} (set_prop h d k v)"
  by (simp add: frame_def length_set_prop nth_set_prop code_set_own proto_set_own)

lemma frame_new_function: "frame h {} (snd (new_function h f))"
  by (simp add: frame_def length_new_function nth_new_function_old)

lemma frame_alloc: "frame h {} (snd (alloc h ob))"
  by (simp add: frame_def alloc_def nth_append)

lemma frame_wrap_one: "frame h {d} (wrap_one h d s k)"
proof (cases "should_wrap h d s k")
  case True
  have "frame h {d} (snd (new_function h (Wrap (get_prop h s k) (get_prop h d k))))"
    using frame_new_function by (rule frame_mono) simp
  then show ?thesis unfolding wrap_one_wrapped [OF True]
    using frame_set_prop by (rule frame_trans)
next
  case False
  then show ?thesis by (simp add: wrap_one_plain frame_set_prop)
qed

lemma frame_merge_loop: "frame h {d} (merge_loop h d s ks)"
proof (induction ks arbitrary: h)
  case Nil
  show ?case by (simp add: frame_refl)
next
  case (Cons k ks)
  show ?case unfolding merge_loop_Cons
    using frame_wrap_one Cons.IH by (rule frame_trans)
qed

lemma frame_wrapAll:
  assumes "wrapAll h dest src = Inr h'"
  shows "frame h {a. dest = VRef a} h'"
  using assms
proof (cases rule: wrapAll_Inr)
  case none
  then show ?thesis by (simp add: frame_refl)
next
  case (some d s)
  then show ?thesis using frame_merge_loop [of h d s "keys_of h src"] by simp
qed

lemma frame_copy_loop: "frame h {d} (copy_loop h d s ks)"
proof (induction ks arbitrary: h)
  case Nil
  show ?case by (simp add: frame_refl)
next
  case (Cons k ks)
  show ?case using frame_set_prop Cons.IH by (simp only: copy_loop.simps) (rule frame_trans)
qed

lemma frame_assign: "frame h {d} (copy_all h d s)"
  by (simp add: copy_all_def frame_copy_loop)

lemma extend_cases:
  assumes "extend h parent pp sp = Inr (res, h')"
  obtains c h1 h3 h6 where
    "select_child h parent pp = Inr (VRef c, h1)" "res = VRef c" "c < length h1"
    "wrapAll (copy_all h1 c parent) (VRef c) sp = Inr h3"
    "wrapAll (set_prop (h3 @ [surrogate h3 parent (VRef c)]) c ''prototype'' (VRef (length h3)))
        (VRef (length h3)) pp = Inr h6"
    "h' = set_prop (set_prop h6 c ''superclass'' (VRef parent)) c ''__super__''
            (get_prop (set_prop h6 c ''superclass'' (VRef parent)) parent ''prototype'')"
proof -
  from assms obtain child h1 where sc: "select_child h parent pp = Inr (child, h1)"
    by (auto simp: extend_def split: sum.splits)
  from assms sc obtain c where c: "child = VRef c" "c < length h1"
    by (auto simp: extend_def split: val.splits if_splits)
  from assms sc c obtain h2 where a2: "assign h1 c parent = Inr h2"
    by (auto simp: extend_def Let_def split: sum.splits)
  then have h2: "h2 = copy_all h1 c parent" by (rule assign_Inr)
  from assms sc c a2 obtain h3 where "wrapAll h2 (VRef c) sp = Inr h3"
    by (auto simp: extend_def Let_def split: sum.splits)
  then have w1: "wrapAll (copy_all h1 c parent) (VRef c) sp = Inr h3" unfolding h2 .
  let ?h5 = "set_prop (h3 @ [surrogate h3 parent (VRef c)]) c ''prototype'' (VRef (length h3))"
  have len3: "length h1 \<le> length h3"
    using frame_assign [of h1 c parent] frame_wrapAll [OF w1] by (simp add: frame_def)
  with c have c4: "c < length (h3 @ [surrogate h3 parent (VRef c)])" by simp
  have g: "get_prop ?h5 c ''prototype'' = VRef (length h3)"
    using c4 by (rule get_prop_set_prop_same)
  from assms sc c a2 w1 obtain h6 where
    w2: "wrapAll ?h5 (get_prop ?h5 c ''prototype'') pp = Inr h6"
    and h': "h' = set_prop (set_prop h6 c ''superclass'' (VRef parent)) c ''__super__''
            (get_prop (set_prop h6 c ''superclass'' (VRef parent)) parent ''prototype'')"
    and r: "res = VRef c"
    unfolding h2 [symmetric]
    by (auto simp: extend_def Let_def alloc_def surrogate_def split: sum.splits)
  from w2 have "wrapAll ?h5 (VRef (length h3)) pp = Inr h6" unfolding g .
  with sc c w1 h' r that show ?thesis by blast
qed

lemma select_child_default:
  assumes "protoProps = None \<or> (\<exists>p. protoProps = Some p \<and> \<not> has_own h p ''constructor'')"
  shows "select_child h parent protoProps =
           Inr (VRef (length h), snd (new_function h (Delegate (VRef parent))))"
  using assms by (auto simp: select_child_def new_function_def Let_def)

lemma select_child_super:
  assumes "has_own h p ''constructor''" "superTest h (get_prop h p ''constructor'')"
  shows "select_child h parent (Some p) =
           (case get_val h (get_prop h parent ''prototype'') ''constructor'' of
              Inl e \<Rightarrow> Inl e
            | Inr pc \<Rightarrow> Inr (VRef (length h),
                            snd (new_function h (Wrap (get_prop h p ''constructor'') pc))))"
  using assms by (simp add: select_child_def wrap_def new_function_def Let_def split: sum.splits)

lemma select_child_plain:
  assumes "has_own h p ''constructor''" "\<not> superTest h (get_prop h p ''constructor'')"
  shows "select_child h parent (Some p) = Inr (get_prop h p ''constructor'', h)"
  using assms by (simp add: select_child_def)

lemma select_child_frame:
  assumes "select_child h parent pp = Inr (child, h1)"
  shows "frame h {} h1"
proof -
  consider (d) "pp = None \<or> (\<exists>p. pp = Some p \<and> \<not> has_own h p ''constructor'')"
    | (s) p where "pp = Some p" "has_own h p ''constructor''" "superTest h (get_prop h p ''constructor'')"
    | (pl) p where "pp = Some p" "has_own h p ''constructor''" "\<not> superTest h (get_prop h p ''constructor'')"
    by (cases pp) auto
  then show ?thesis
  proof cases
    case d
    with assms show ?thesis by (auto simp: select_child_default frame_new_function)
  next
    case s
    with assms show ?thesis
      by (auto simp: select_child_super frame_new_function split: sum.splits)
  next
    case pl
    with assms show ?thesis by (simp add: select_child_plain frame_refl)
  qed
qed

lemma extend_select:
  assumes "extend h parent pp sp = Inr (res, h')"
  obtains c h1 where "select_child h parent pp = Inr (VRef c, h1)" "res = VRef c"
    "c < length h1" "frame h1 {c} h'"
proof -
  from assms obtain c h1 h3 h6 where
    sc: "select_child h parent pp = Inr (VRef c, h1)" and r: "res = VRef c" and c1: "c < length h1"
    and w1: "wrapAll (copy_all h1 c parent) (VRef c) sp = Inr h3"
    and w2: "wrapAll (set_prop (h3 @ [surrogate h3 parent (VRef c)]) c ''prototype'' (VRef (length h3)))
        (VRef (length h3)) pp = Inr h6"
    and h': "h' = set_prop (set_prop h6 c ''superclass'' (VRef parent)) c ''__super__''
            (get_prop (set_prop h6 c ''superclass'' (VRef parent)) parent ''prototype'')"
    by (rule extend_cases)
  let ?h4 = "h3 @ [surrogate h3 parent (VRef c)]"
  let ?h5 = "set_prop ?h4 c ''prototype'' (VRef (length h3))"
  let ?h7 = "set_prop h6 c ''superclass'' (VRef parent)"
  have f2: "frame h1 {c} (copy_all h1 c parent)" by (rule frame_assign)
  have f3: "frame (copy_all h1 c parent) {c} h3"
    using frame_wrapAll [OF w1] by (rule frame_mono) simp
  have f13: "frame h1 {c} h3" using f2 f3 by (rule frame_trans)
  have f4: "frame h3 {c} ?h4" by (simp add: frame_def nth_append)
  have f5: "frame ?h4 {c} ?h5" by (rule frame_set_prop)
  have f35: "frame h3 {c} ?h5" using f4 f5 by (rule frame_trans)
  have f6: "frame ?h5 {length h3} h6"
    using frame_wrapAll [OF w2] by (rule frame_mono) simp
  have f36: "frame h3 {c} h6"
    using f35 f6 by (rule frame_trans_within) simp
  have f7: "frame h6 {c} ?h7" by (rule frame_set_prop)
  have f8: "frame ?h7 {c} h'" unfolding h' by (rule frame_set_prop)
  have "frame h1 {c} h'" using f13 f36 f7 f8 by (blast intro: frame_trans)
  with sc r c1 that show ?thesis by blast
qed

lemma extend_frame:
  assumes "extend h parent pp sp = Inr (VRef c, h')"
  shows "frame h {c} h'"
proof -
  from assms obtain c' h1 where sc: "select_child h parent pp = Inr (VRef c', h1)"
    and "VRef c = VRef c'" and f: "frame h1 {c'} h'"
    by (rule extend_select)
  then have cc: "c' = c" by simp
  have "frame h {c} h1" using select_child_frame [OF sc] by (rule frame_mono) simp
  then show ?thesis using f unfolding cc by (rule frame_trans)
qed


lemma include_static_frame:
  assumes "include_static h c sp = Inr (r, h')"
  shows "frame h {c} h'"
proof -
  from assms have "wrapAll h (VRef c) sp = Inr h'"
    by (auto simp: include_static_def split: sum.splits)
  from frame_wrapAll [OF this] show ?thesis by (rule frame_mono) simp
qed

section \<open>extend: the tables of the subclass\<close>

lemma wrap_one_own_other:
  assumes "d < length h" "k \<noteq> k'"
  shows "get_own (wrap_one h d s k' ! d) k = get_own (h ! d) k"
  using assms
  by (cases "should_wrap h d s k'")
     (simp_all add: wrap_one_wrapped wrap_one_plain nth_set_prop get_own_set_own
        length_new_function nth_new_function_old)

lemma merge_loop_own_other:
  assumes "d < length h" "k \<notin> set ks"
  shows "get_own (merge_loop h d s ks ! d) k = get_own (h ! d) k"
  using assms
proof (induction ks arbitrary: h)
  case Nil
  show ?case by simp
next
  case (Cons k' ks)
  from Cons.prems(2) have ne: "k \<noteq> k'" and nin: "k \<notin> set ks" by auto
  have "length h \<le> length (wrap_one h d s k')" using frame_wrap_one [of h d s k'] by (simp add: frame_def)
  with Cons.prems(1) have d1: "d < length (wrap_one h d s k')" by simp
  show ?case unfolding merge_loop_Cons Cons.IH [OF d1 nin]
    using Cons.prems(1) ne by (rule wrap_one_own_other)
qed

lemma wrapAll_own_other:
  assumes "wrapAll h (VRef d) sp = Inr h'" "d < length h" "k \<notin> set (keys_of h sp)"
  shows "get_own (h' ! d) k = get_own (h ! d) k"
  using assms(1)
proof (cases rule: wrapAll_Inr)
  case none
  then show ?thesis by simp
next
  case (some d' s)
  then show ?thesis using merge_loop_own_other [OF assms(2,3)] by simp
qed

lemma copy_loop_own_other:
  assumes "c < length h" "k \<notin> set ks"
  shows "get_own (copy_loop h c p ks ! c) k = get_own (h ! c) k"
  using assms
proof (induction ks arbitrary: h)
  case Nil
  show ?case by simp
next
  case (Cons k' ks)
  from Cons.prems(2) have ne: "k \<noteq> k'" and nin: "k \<notin> set ks" by auto
  let ?h1 = "set_prop h c k' (get_prop h p k')"
  have c1: "c < length ?h1" using Cons.prems(1) by (simp add: length_set_prop)
  have "get_own (copy_loop ?h1 c p ks ! c) k = get_own (?h1 ! c) k" using c1 nin by (rule Cons.IH)
  also have "\<dots> = get_own (h ! c) k" using Cons.prems(1) ne by (simp add: nth_set_prop get_own_set_own)
  finally show ?case by simp
qed

lemma copy_loop_copies:
  assumes "c < length h" "p < length h" "c \<noteq> p" "k \<in> set ks" "get_own (h ! p) k = Some v"
  shows "get_own (copy_loop h c p ks ! c) k = Some v"
  using assms
proof (induction ks arbitrary: h)
  case Nil
  then show ?case by simp
next
  case (Cons k' ks)
  let ?h1 = "set_prop h c k' (get_prop h p k')"
  have c1: "c < length ?h1" and p1: "p < length ?h1" using Cons.prems(1,2) by (simp_all add: length_set_prop)
  have same: "?h1 ! p = h ! p" using Cons.prems(2,3) by (simp add: nth_set_prop)
  have v1: "get_own (?h1 ! p) k = Some v" unfolding same by (rule Cons.prems(5))
  show ?case
  proof (cases "k \<in> set ks")
    case True
    with Cons.IH [OF c1 p1 Cons.prems(3) _ v1] show ?thesis by simp
  next
    case False
    with Cons.prems(4) have kk: "k' = k" by simp
    have "get_own (copy_loop ?h1 c p ks ! c) k = get_own (?h1 ! c) k"
      using c1 False by (rule copy_loop_own_other)
    also have "\<dots> = Some (get_prop h p k)"
      using Cons.prems(1) by (simp add: kk nth_set_prop get_own_set_own)
    also have "get_prop h p k = v" using Cons.prems(2,5) by (rule get_prop_own)
    finally show ?thesis by simp
  qed
qed

lemma extend_copies_and_delegates:
  assumes e: "extend h parent pp sp = Inr (VRef c, h')" and pc: "parent \<noteq> c" and pl: "parent < length h"
    and bag: "sp = None \<or> (\<exists>s. sp = Some s \<and> s < length h \<and> s \<noteq> c)"
    and own: "get_own (h ! parent) ''prototype'' = Some v"
  shows "(\<forall>k \<in> set (keys_of h (Some parent)).
            k \<notin> set (keys_of h sp) \<and> k \<notin> {''prototype'', ''superclass'', ''__super__''} \<longrightarrow>
            get_own (h' ! c) k = get_own (h ! parent) k) \<and>
         (\<exists>s. get_own (h' ! c) ''prototype'' = Some (VRef s) \<and> length h \<le> s \<and> s < length h' \<and>
              proto (h' ! s) = (case v of VRef q \<Rightarrow> VRef q | _ \<Rightarrow> VNull))"
proof -
  from e obtain c' h1 h3 h6 where
    sc: "select_child h parent pp = Inr (VRef c', h1)" and "VRef c = VRef c'" and c1': "c' < length h1"
    and w1': "wrapAll (copy_all h1 c' parent) (VRef c') sp = Inr h3"
    and w2': "wrapAll (set_prop (h3 @ [surrogate h3 parent (VRef c')]) c' ''prototype'' (VRef (length h3)))
        (VRef (length h3)) pp = Inr h6"
    and h'': "h' = set_prop (set_prop h6 c' ''superclass'' (VRef parent)) c' ''__super__''
            (get_prop (set_prop h6 c' ''superclass'' (VRef parent)) parent ''prototype'')"
    by (rule extend_cases)
  then have cc: "c' = c" by simp
  note c1 = c1' [unfolded cc] and w1 = w1' [unfolded cc] and w2 = w2' [unfolded cc] and h' = h'' [unfolded cc]
  let ?h2 = "copy_all h1 c parent"
  let ?h4 = "h3 @ [surrogate h3 parent (VRef c)]"
  let ?h5 = "set_prop ?h4 c ''prototype'' (VRef (length h3))"
  let ?h7 = "set_prop h6 c ''superclass'' (VRef parent)"
  have f01: "frame h {} h1" using sc by (rule select_child_frame)
  have f12: "frame h1 {c} ?h2" by (rule frame_assign)
  have f23: "frame ?h2 {c} h3" using frame_wrapAll [OF w1] by (rule frame_mono) simp
  have f56: "frame ?h5 {length h3} h6" using frame_wrapAll [OF w2] by (rule frame_mono) simp
  have l01: "length h \<le> length h1" using f01 by (simp add: frame_def)
  have l12: "length h1 \<le> length ?h2" using f12 by (simp add: frame_def)
  have l23: "length ?h2 \<le> length h3" using f23 by (simp add: frame_def)
  have l5: "length ?h5 = Suc (length h3)" by (simp add: length_set_prop)
  have l56: "length ?h5 \<le> length h6" using f56 by (simp add: frame_def)
  have c2: "c < length ?h2" using c1 l12 by simp
  have c3: "c < length h3" using c2 l23 by simp
  have c5: "c < length ?h5" using c3 l5 by simp
  have c6: "c < length h6" using c5 l56 by simp
  have p1: "h1 ! parent = h ! parent" using f01 pl by (simp add: frame_def)
  have pl1: "parent < length h1" using pl l01 by simp
  have p3: "h3 ! parent = h ! parent"
  proof -
    have "?h2 ! parent = h1 ! parent" using f12 pl1 pc by (simp add: frame_def)
    moreover have "h3 ! parent = ?h2 ! parent" using f23 pl1 l12 pc by (simp add: frame_def)
    ultimately show ?thesis using p1 by simp
  qed
  \<comment> \<open>the statics\<close>
  have copy: "get_own (h' ! c) k = get_own (h ! parent) k"
    if k: "k \<in> set (keys_of h (Some parent))" and nk: "k \<notin> set (keys_of h sp)"
      and n1: "k \<noteq> ''prototype''" and n2: "k \<noteq> ''superclass''" and n3: "k \<noteq> ''__super__''" for k
  proof -
    from key_has_own [OF k] obtain v where v: "get_own (h ! parent) k = Some v" by blast
    have k1: "k \<in> set (keys_of h1 (Some parent))"
      using k pl pl1 p1 by (simp add: keys_of_def lookup_def)
    have a2: "get_own (?h2 ! c) k = Some v"
      unfolding copy_all_def using c1 pl1 pc [symmetric] k1 v [folded p1] by (rule copy_loop_copies)
    have ksp: "keys_of ?h2 sp = keys_of h sp"
    proof (cases sp)
      case None
      then show ?thesis by (simp add: keys_of_def)
    next
      case (Some s)
      with bag have sc': "s \<noteq> c" and sl: "s < length h" by simp_all
      from sl have "h1 ! s = h ! s" "s < length h1" using f01 by (simp_all add: frame_def)
      moreover from this have "?h2 ! s = h1 ! s" "s < length ?h2" using f12 sc' by (simp_all add: frame_def)
      ultimately show ?thesis using sl by (simp add: Some keys_of_def lookup_def)
    qed
    have a3: "get_own (h3 ! c) k = Some v"
      using wrapAll_own_other [OF w1 c2] nk a2 unfolding ksp by simp
    have a5: "get_own (?h5 ! c) k = Some v"
      using c3 a3 n1 by (simp add: nth_set_prop get_own_set_own nth_append)
    have "h6 ! c = ?h5 ! c" using f56 c5 c3 by (simp add: frame_def)
    with a5 have a6: "get_own (h6 ! c) k = Some v" by simp
    show ?thesis unfolding h' v using c6 a6 n2 n3 by (simp add: nth_set_prop get_own_set_own length_set_prop)
  qed
  \<comment> \<open>the instance table\<close>
  let ?s = "length h3"
  have sc5: "?s < length ?h5" using l5 by simp
  have s6: "?s < length h6" using sc5 l56 by simp
  have ne: "?s \<noteq> c" using c3 by simp
  have g5: "get_own (?h5 ! c) ''prototype'' = Some (VRef ?s)"
    using c3 by (simp add: nth_set_prop get_own_set_own)
  have "h6 ! c = ?h5 ! c" using f56 c5 c3 by (simp add: frame_def)
  with g5 have g6: "get_own (h6 ! c) ''prototype'' = Some (VRef ?s)" by simp
  have g8: "get_own (h' ! c) ''prototype'' = Some (VRef ?s)"
    unfolding h' using c6 g6 by (simp add: nth_set_prop get_own_set_own length_set_prop)
  have ls: "length h \<le> ?s" using l01 l12 l23 by simp
  have s8: "?s < length h'" unfolding h' using s6 by (simp add: length_set_prop)
  have pl3: "parent < length h3" using pl ls by simp
  have gp: "get_prop h3 parent ''prototype'' = v"
    using pl3 own [folded p3] by (rule get_prop_own)
  have "proto (h' ! ?s) = proto (h6 ! ?s)"
    unfolding h' using s6 ne by (simp add: nth_set_prop length_set_prop)
  also have "\<dots> = proto (?h5 ! ?s)" using f56 sc5 by (simp add: frame_def)
  also have "\<dots> = proto (surrogate h3 parent (VRef c))"
    using ne by (simp add: nth_set_prop)
  also have "\<dots> = (case v of VRef q \<Rightarrow> VRef q | _ \<Rightarrow> VNull)"
    by (simp add: surrogate_def gp)
  finally have pr: "proto (h' ! ?s) = (case v of VRef q \<Rightarrow> VRef q | _ \<Rightarrow> VNull)" .
  from copy g8 ls s8 pr show ?thesis by blast
qed

section \<open>extend: the constructor of the subclass\<close>

lemmas heap_eval = extend_def select_child_def has_own_def lookup_def get_own_def
        new_function_def Let_def get_prop_def superTest_eq to_text_def
        assign_def keys_of_def wrapAll_def isFunction_def alloc_def set_prop_def set_own_def
        wrap_def super_at_def starts_with_def is_word_def get_val_def include_static_def
        assign_prop_plain fixed_members_def

lemmas call_eval = construct_def call_Suc exec_Suc eval_Suc eval_list_Suc and_then_simps or_throw_simps
        set_val_def code_of_def numeral_eq_Suc assign_prop_plain fixed_members_def















text \<open>
  A parent that \<open>extend\<close> built with a constructor that calls its super is left out of the
  statement above. Line 171 merges the bag into the new instance table, where
  \<open>constructor\<close> already names the child: the entry becomes a second wrapper of the
  supplied constructor, over the child. In the example the subclass at address 8 has the
  wrapper at address 11 as \<open>prototype.constructor\<close>. The subclass made of it without a
  constructor runs the counting constructor once; the subclass made of it with a
  constructor that calls its super is a wrapper over the function at address 11, not over
  its parent at address 8, and runs the counting constructor twice.
\<close>

lemma tower_eval:
  "extend tower_heap 0 (Some 6) None = Inr (VRef 8, mid_heap)"
  "extend mid_heap 8 (Some 7) None = Inr (VRef 13, top_heap)"
  "get_val mid_heap (get_prop mid_heap 8 ''prototype'') ''constructor'' = Inr (VRef 11)"
  "code_of mid_heap (VRef 11) = Some (Wrap (VRef 2) (VRef 8))"
  "code_of top_heap (VRef 13) = Some (Wrap (VRef 4) (VRef 11))"
  by (simp_all add: heap_eval code_of_def top_heap_def tower_heap_def mid_heap_def count_fn_def
        leaf_fn_def zero_fn_def)

lemma tower_construct:
  "\<exists>h''. construct 20 top_heap (VRef 13) [] = Some (Inr (VRef 18), h'') \<and> get_prop h'' 18 ''c'' = VNum 2"
  by (simp add: heap_eval call_eval top_heap_def tower_heap_def mid_heap_def count_fn_def
        leaf_fn_def zero_fn_def)

lemma tower_default:
  "\<exists>h' h''. extend mid_heap 8 None None = Inr (VRef 13, h') \<and>
     construct 20 h' (VRef 13) [] = Some (Inr (VRef 16), h'') \<and> get_prop h'' 16 ''c'' = VNum 1"
  by (simp add: heap_eval call_eval tower_heap_def mid_heap_def count_fn_def leaf_fn_def zero_fn_def)

lemma extend_over_wrapped_constructor:
  "extend tower_heap 0 (Some 6) None = Inr (VRef 8, mid_heap) \<and>
   get_val mid_heap (get_prop mid_heap 8 ''prototype'') ''constructor'' = Inr (VRef 11) \<and>
   code_of mid_heap (VRef 11) = Some (Wrap (VRef 2) (VRef 8)) \<and>
   extend mid_heap 8 (Some 7) None = Inr (VRef 13, top_heap) \<and>
   code_of top_heap (VRef 13) = Some (Wrap (VRef 4) (VRef 11)) \<and>
   (\<exists>h''. construct 20 top_heap (VRef 13) [] = Some (Inr (VRef 18), h'') \<and>
          get_prop h'' 18 ''c'' = VNum 2) \<and>
   (\<exists>h' h''. extend mid_heap 8 None None = Inr (VRef 13, h') \<and>
          construct 20 h' (VRef 13) [] = Some (Inr (VRef 16), h'') \<and> get_prop h'' 16 ''c'' = VNum 1)"
  using tower_eval tower_construct tower_default by (intro conjI)

section \<open>extend and include: the parent and the other classes\<close>

lemma extend_back_references:
  assumes e: "extend h parent pp sp = Inr (VRef c, h')"
  shows "get_own (h' ! c) ''superclass'' = Some (VRef parent) \<and>
         get_own (h' ! c) ''__super__'' = Some (get_prop h' parent ''prototype'')"
proof -
  from e obtain c' h1 h3 h6 where "VRef c = VRef c'" and c1': "c' < length h1"
    and w1': "wrapAll (copy_all h1 c' parent) (VRef c') sp = Inr h3"
    and w2': "wrapAll (set_prop (h3 @ [surrogate h3 parent (VRef c')]) c' ''prototype'' (VRef (length h3)))
        (VRef (length h3)) pp = Inr h6"
    and h'': "h' = set_prop (set_prop h6 c' ''superclass'' (VRef parent)) c' ''__super__''
            (get_prop (set_prop h6 c' ''superclass'' (VRef parent)) parent ''prototype'')"
    by (rule extend_cases)
  then have cc: "c' = c" by simp
  note c1 = c1' [unfolded cc] and w1 = w1' [unfolded cc] and w2 = w2' [unfolded cc] and h' = h'' [unfolded cc]
  let ?h7 = "set_prop h6 c ''superclass'' (VRef parent)"
  have "length h1 \<le> length (copy_all h1 c parent)" using frame_assign [of h1 c parent] by (simp add: frame_def)
  moreover have "length (copy_all h1 c parent) \<le> length h3" using frame_wrapAll [OF w1] by (simp add: frame_def)
  moreover have "length (set_prop (h3 @ [surrogate h3 parent (VRef c)]) c ''prototype'' (VRef (length h3))) \<le> length h6"
    using frame_wrapAll [OF w2] by (simp add: frame_def)
  ultimately have c6: "c < length h6" using c1 by (simp add: length_set_prop)
  have a: "get_own (h' ! c) ''superclass'' = Some (VRef parent)"
    unfolding h' using c6 by (simp add: nth_set_prop get_own_set_own length_set_prop)
  have "get_prop h' parent ''prototype'' = get_prop ?h7 parent ''prototype''"
    unfolding h' by (rule get_prop_set_prop_other) simp
  moreover have "get_own (h' ! c) ''__super__'' = Some (get_prop ?h7 parent ''prototype'')"
    unfolding h' using c6 by (simp add: nth_set_prop get_own_set_own length_set_prop)
  ultimately have b: "get_own (h' ! c) ''__super__'' = Some (get_prop h' parent ''prototype'')" by simp
  from a b show ?thesis ..
qed

text \<open>
  Claim C7, as the code has it. \<open>extend\<close> changes no object that exists before the call,
  except the child; the child is a new object unless a constructor without the super
  token is supplied, which then is the child. So the parent is unchanged whenever it is
  not itself that constructor. In that case the child holds every static member of the
  parent that the static bag does not define (the three members that \<open>extend\<close> sets
  apart), and its \<open>prototype\<close> is a new object whose prototype is the parent's.
  \<open>include\<close> changes no existing object but the class it is called on: not the parent,
  and not another child of the same parent. In every case the child's \<open>superclass\<close> is
  the parent and its \<open>__super__\<close> is the parent's \<open>prototype\<close>.
\<close>

theorem extend_keeps_other_objects:
  "(extend h parent pp sp = Inr (VRef c, h') \<and> a < length h \<and> a \<noteq> c \<longrightarrow> h' ! a = h ! a) \<and>
   (extend h parent pp sp = Inr (VRef c, h') \<and>
      (pp = None \<or> (\<exists>p. pp = Some p \<and>
         (\<not> has_own h p ''constructor'' \<or> superTest h (get_prop h p ''constructor''))))
      \<longrightarrow> c = length h) \<and>
   (extend h parent pp sp = Inr (VRef c, h') \<and> parent \<noteq> c \<and> parent < length h \<and>
      (sp = None \<or> (\<exists>s. sp = Some s \<and> s < length h \<and> s \<noteq> c)) \<and>
      get_own (h ! parent) ''prototype'' = Some v \<longrightarrow>
        (\<forall>k \<in> set (keys_of h (Some parent)).
            k \<notin> set (keys_of h sp) \<and> k \<notin> {''prototype'', ''superclass'', ''__super__''} \<longrightarrow>
            get_own (h' ! c) k = get_own (h ! parent) k) \<and>
        (\<exists>s. get_own (h' ! c) ''prototype'' = Some (VRef s) \<and> length h \<le> s \<and> s < length h' \<and>
             proto (h' ! s) = (case v of VRef q \<Rightarrow> VRef q | _ \<Rightarrow> VNull))) \<and>
   (include_static h1 c1 sp1 = Inr (r1, h1') \<and> a1 < length h1 \<and> a1 \<noteq> c1 \<longrightarrow> h1' ! a1 = h1 ! a1) \<and>
   (extend h parent pp sp = Inr (VRef c, h') \<longrightarrow>
      get_own (h' ! c) ''superclass'' = Some (VRef parent) \<and>
      get_own (h' ! c) ''__super__'' = Some (get_prop h' parent ''prototype''))"
proof (intro conjI impI; (elim conjE)?)
  assume "extend h parent pp sp = Inr (VRef c, h')" "a < length h" "a \<noteq> c"
  then show "h' ! a = h ! a"
    using extend_frame [of h parent pp sp c h'] by (simp add: frame_def)
next
  assume e: "extend h parent pp sp = Inr (VRef c, h')"
    and k: "pp = None \<or> (\<exists>p. pp = Some p \<and>
         (\<not> has_own h p ''constructor'' \<or> superTest h (get_prop h p ''constructor'')))"
  from e obtain c' h1 where sc: "select_child h parent pp = Inr (VRef c', h1)" and "VRef c = VRef c'"
    by (rule extend_select)
  then have cc: "c' = c" by simp
  consider (d) "pp = None \<or> (\<exists>p. pp = Some p \<and> \<not> has_own h p ''constructor'')"
    | (s) p where "pp = Some p" "has_own h p ''constructor''" "superTest h (get_prop h p ''constructor'')"
    using k by blast
  then show "c = length h"
  proof cases
    case d
    with sc cc show ?thesis by (simp add: select_child_default)
  next
    case s
    with sc cc show ?thesis by (auto simp: select_child_super split: sum.splits)
  qed
next
  assume t: "extend h parent pp sp = Inr (VRef c, h')" "parent \<noteq> c" "parent < length h"
      "sp = None \<or> (\<exists>s. sp = Some s \<and> s < length h \<and> s \<noteq> c)"
      "get_own (h ! parent) ''prototype'' = Some v"
  from extend_copies_and_delegates [OF t]
  show "\<forall>k \<in> set (keys_of h (Some parent)).
            k \<notin> set (keys_of h sp) \<and> k \<notin> {''prototype'', ''superclass'', ''__super__''} \<longrightarrow>
            get_own (h' ! c) k = get_own (h ! parent) k" by (rule conjunct1)
next
  assume t: "extend h parent pp sp = Inr (VRef c, h')" "parent \<noteq> c" "parent < length h"
      "sp = None \<or> (\<exists>s. sp = Some s \<and> s < length h \<and> s \<noteq> c)"
      "get_own (h ! parent) ''prototype'' = Some v"
  from extend_copies_and_delegates [OF t]
  show "\<exists>s. get_own (h' ! c) ''prototype'' = Some (VRef s) \<and> length h \<le> s \<and> s < length h' \<and>
             proto (h' ! s) = (case v of VRef q \<Rightarrow> VRef q | _ \<Rightarrow> VNull)" by (rule conjunct2)
next
  assume "include_static h1 c1 sp1 = Inr (r1, h1')" "a1 < length h1" "a1 \<noteq> c1"
  then show "h1' ! a1 = h1 ! a1"
    using include_static_frame [of h1 c1 sp1 r1 h1'] by (simp add: frame_def)
next
  assume "extend h parent pp sp = Inr (VRef c, h')"
  from extend_back_references [OF this]
  show "get_own (h' ! c) ''superclass'' = Some (VRef parent)" by (rule conjunct1)
next
  assume "extend h parent pp sp = Inr (VRef c, h')"
  from extend_back_references [OF this]
  show "get_own (h' ! c) ''__super__'' = Some (get_prop h' parent ''prototype'')" by (rule conjunct2)
qed

lemma children_eval:
  "extend pair_heap 0 None None = Inr (VRef 4, child1_heap)"
  "extend child1_heap 0 None None = Inr (VRef 7, child2_heap)"
  "include_static child2_heap 4 (Some 2) = Inr (VRef 4, set_prop child2_heap 4 ''x'' (VNum 1))"
  "include_static (set_prop child2_heap 4 ''x'' (VNum 1)) 7 (Some 3) =
     Inr (VRef 7, set_prop (set_prop child2_heap 4 ''x'' (VNum 1)) 7 ''y'' (VNum 2))"
  by (simp_all add: child2_heap_def child1_heap_def heap_eval pair_heap_def)

theorem extend_keeps_other_objects_witness:
  "extend pair_heap 0 None None = Inr (VRef 4, child1_heap) \<and> child1_heap ! 0 = pair_heap ! 0 \<and>
   4 = length pair_heap \<and>
   get_own (child1_heap ! 4) ''s'' = get_own (pair_heap ! 0) ''s'' \<and>
   (\<exists>s. get_own (child1_heap ! 4) ''prototype'' = Some (VRef s) \<and> proto (child1_heap ! s) = VRef 1) \<and>
   include_static child2_heap 4 (Some 2) = Inr (VRef 4, set_prop child2_heap 4 ''x'' (VNum 1)) \<and>
   set_prop child2_heap 4 ''x'' (VNum 1) ! 7 = child2_heap ! 7 \<and>
   set_prop child2_heap 4 ''x'' (VNum 1) ! 0 = child2_heap ! 0 \<and>
   get_own (child1_heap ! 4) ''superclass'' = Some (VRef 0) \<and>
   get_own (child1_heap ! 4) ''__super__'' = Some (VRef 1)"
proof -
  have l: "length pair_heap = 4" "length child2_heap = 10"
    by (simp_all add: pair_heap_def child1_heap_def child2_heap_def)
  have o: "get_own (pair_heap ! 0) ''prototype'' = Some (VRef 1)"
    and ks: "keys_of pair_heap (Some 0) = [''s'']" and kn: "keys_of pair_heap None = []"
    by (simp_all add: pair_heap_def get_own_def keys_of_def lookup_def)
  note T = extend_keeps_other_objects
    [where h = pair_heap and parent = 0 and pp = None and sp = None and c = 4
       and h' = child1_heap and a = 0 and v = "VRef 1" and ?h1.0 = child2_heap and ?c1.0 = 4
       and ?sp1.0 = "Some 2" and ?r1.0 = "VRef 4" and ?h1' = "set_prop child2_heap 4 ''x'' (VNum 1)"
       and ?a1.0 = 7]
  note T' = extend_keeps_other_objects
    [where h = pair_heap and parent = 0 and pp = None and sp = None and c = 4
       and h' = child1_heap and a = 0 and v = "VRef 1" and ?h1.0 = child2_heap and ?c1.0 = 4
       and ?sp1.0 = "Some 2" and ?r1.0 = "VRef 4" and ?h1' = "set_prop child2_heap 4 ''x'' (VNum 1)"
       and ?a1.0 = 0]
  note T1 = T [THEN conjunct1] and T2 = T [THEN conjunct2, THEN conjunct1]
    and T3 = T [THEN conjunct2, THEN conjunct2, THEN conjunct1]
    and T4 = T [THEN conjunct2, THEN conjunct2, THEN conjunct2, THEN conjunct1]
    and T4' = T' [THEN conjunct2, THEN conjunct2, THEN conjunct2, THEN conjunct1]
    and T5 = T [THEN conjunct2, THEN conjunct2, THEN conjunct2, THEN conjunct2]
  have a: "child1_heap ! 0 = pair_heap ! 0"
    using T1 children_eval(1) l(1) by simp
  have b: "4 = length pair_heap"
    using T2 children_eval(1) by simp
  have p3: "extend pair_heap 0 None None = Inr (VRef 4, child1_heap) \<and> (0::nat) \<noteq> 4 \<and>
      0 < length pair_heap \<and> (None = None \<or> (\<exists>s. None = Some s \<and> s < length pair_heap \<and> s \<noteq> 4)) \<and>
      get_own (pair_heap ! 0) ''prototype'' = Some (VRef 1)"
    using children_eval(1) l(1) o by simp
  from mp [OF T3 p3] have
    c1: "\<forall>k \<in> set (keys_of pair_heap (Some 0)).
            k \<notin> set (keys_of pair_heap None) \<and> k \<notin> {''prototype'', ''superclass'', ''__super__''} \<longrightarrow>
            get_own (child1_heap ! 4) k = get_own (pair_heap ! 0) k"
    and c2: "\<exists>s. get_own (child1_heap ! 4) ''prototype'' = Some (VRef s) \<and> length pair_heap \<le> s \<and>
             s < length child1_heap \<and>
             proto (child1_heap ! s) = (case VRef 1 of VRef q \<Rightarrow> VRef q | _ \<Rightarrow> VNull)"
    by (rule conjunct1, rule conjunct2)
  have "''s'' \<in> set (keys_of pair_heap (Some 0))" unfolding ks by simp
  from bspec [OF c1 this] have c: "get_own (child1_heap ! 4) ''s'' = get_own (pair_heap ! 0) ''s''"
    unfolding kn by simp
  from c2 have d: "\<exists>s. get_own (child1_heap ! 4) ''prototype'' = Some (VRef s) \<and> proto (child1_heap ! s) = VRef 1"
    by auto
  have e: "set_prop child2_heap 4 ''x'' (VNum 1) ! 7 = child2_heap ! 7"
    using T4 children_eval(3) l(2) by simp
  have f: "set_prop child2_heap 4 ''x'' (VNum 1) ! 0 = child2_heap ! 0"
    using T4' children_eval(3) l(2) by simp
  have gp: "get_prop child1_heap 0 ''prototype'' = VRef 1"
    by (simp add: child1_heap_def pair_heap_def get_prop_def lookup_def get_own_def)
  from mp [OF T5 children_eval(1)]
  have g: "get_own (child1_heap ! 4) ''superclass'' = Some (VRef 0)"
    and i: "get_own (child1_heap ! 4) ''__super__'' = Some (VRef 1)"
    unfolding gp by (rule conjunct1, rule conjunct2)
  from a b c d e f g i children_eval(1,3) show ?thesis by simp
qed

text \<open>
  The claim as written fails when the class itself is supplied as \<open>constructor\<close>: the
  child is then the parent, which receives the static members, a new \<open>prototype\<close> and
  itself as \<open>superclass\<close>.
\<close>

lemma plain_no_super: "\<not> super_search None (fn_text plain_fn)"
  by (simp add: plain_fn_def super_at_def starts_with_def)

lemma alias_extend: "extend alias_heap 0 (Some 2) (Some 3) = Inr (VRef 0, alias_after)"
  by (simp add: extend_def select_child_def has_own_def lookup_def get_own_def alias_heap_def
        new_function_def Let_def get_prop_def superTest_eq to_text_def plain_no_super
        assign_def keys_of_def wrapAll_def isFunction_def alloc_def set_prop_def set_own_def
        alias_after_def assign_prop_plain fixed_members_def)

theorem extend_mutates_aliased_parent:
  "extend alias_heap 0 (Some 2) (Some 3) = Inr (VRef 0, alias_after) \<and>
   get_own (alias_heap ! 0) ''x'' = None \<and>
   get_own (alias_after ! 0) ''x'' = Some (VNum 1) \<and>
   alias_after ! 0 \<noteq> alias_heap ! 0"
proof -
  have a: "get_own (alias_heap ! 0) ''x'' = None"
    by (simp add: alias_heap_def new_function_def Let_def get_own_def)
  have b: "get_own (alias_after ! 0) ''x'' = Some (VNum 1)"
    by (simp add: alias_after_def get_own_def)
  from a b have "alias_after ! 0 \<noteq> alias_heap ! 0" by auto
  with alias_extend a b show ?thesis by blast
qed

section \<open>mixin: the order of application\<close>











section \<open>Metal.Error: construction and rendering\<close>

lemma prim_text_VStr: "prim_text (VStr s) = s"
  by (simp add: prim_text_def to_text_def)
text \<open>
  Claim C8. An error built from a message, with or without an options object
  \<open>{ message?, url? }\<close>, exposes \<open>message\<close> (the one of the options when they carry
  one); it has a \<open>url\<close> only when the options supply a non-empty one, and then it is the
  root address followed by it; \<open>toString\<close> gives the name, a colon and the message, and
  appends \<open>See:\<close> and the url exactly when the error has one.
\<close>

theorem Err_message_url_toString:
  "member (Err_constructor (Prim (VStr m)) None) ''message'' = VStr m \<and>
   map_of (Err_constructor (Prim (VStr m)) None) ''url'' = None \<and>
   Err_toString (Err_constructor (Prim (VStr m)) None) = ''Error: '' @ m \<and>
   member (Err_constructor (Prim (VStr m)) (Some (options_of om ou))) ''message'' =
      VStr (case om of None \<Rightarrow> m | Some x \<Rightarrow> x) \<and>
   map_of (Err_constructor (Prim (VStr m)) (Some (options_of om ou))) ''url'' =
      (case ou of None \<Rightarrow> None | Some u \<Rightarrow> if u = [] then None else Some (VStr (urlRoot @ u))) \<and>
   Err_toString (Err_constructor (Prim (VStr m)) (Some (options_of om ou))) =
      ''Error: '' @ (case om of None \<Rightarrow> m | Some x \<Rightarrow> x) @
      (case ou of None \<Rightarrow> [] | Some u \<Rightarrow> if u = [] then [] else '' See: '' @ urlRoot @ u)"
proof -
  have plain:
    "member (Err_constructor (Prim (VStr m)) None) ''message'' = VStr m \<and>
     map_of (Err_constructor (Prim (VStr m)) None) ''url'' = None \<and>
     Err_toString (Err_constructor (Prim (VStr m)) None) = ''Error: '' @ m"
    by (simp add: Err_constructor_def Err_toString_def member_def Error_call_def pick_def
        errorProps_def assign_bag_def Err_proto_def truthy_def prim_text_VStr Let_def)
  have opts:
    "member (Err_constructor (Prim (VStr m)) (Some (options_of om ou))) ''message'' =
        VStr (case om of None \<Rightarrow> m | Some x \<Rightarrow> x) \<and>
     map_of (Err_constructor (Prim (VStr m)) (Some (options_of om ou))) ''url'' =
        (case ou of None \<Rightarrow> None | Some u \<Rightarrow> if u = [] then None else Some (VStr (urlRoot @ u))) \<and>
     Err_toString (Err_constructor (Prim (VStr m)) (Some (options_of om ou))) =
        ''Error: '' @ (case om of None \<Rightarrow> m | Some x \<Rightarrow> x) @
        (case ou of None \<Rightarrow> [] | Some u \<Rightarrow> if u = [] then [] else '' See: '' @ urlRoot @ u)"
    by (cases om; cases ou)
       (simp_all add: Err_constructor_def Err_toString_def member_def Error_call_def pick_def
         errorProps_def assign_bag_def Err_proto_def truthy_def prim_text_VStr Let_def
         options_of_def urlRoot_def)
  from plain opts show ?thesis by blast
qed

section \<open>Metal.deprecate: warn once\<close>

lemma deprecate_cases:
  "deprecate st m t =
     (if (t \<noteq> VUndef \<and> truthy t) \<or> cache_truthy (cache st) (message_key m) then st
      else st\<lparr>warned := warned st @ [warn_prefix @ message_key m],
              cache := AList.update (message_key m) (VBool True) (cache st)\<rparr>)"
  by (simp add: deprecate_def message_key_def warn_prefix_def Let_def)

lemma cache_inv0: "cache_inv dstate0"
  by (simp add: cache_inv_def dstate0_def)

lemma cache_truthy_own: "map_of c k = Some (VBool True) \<Longrightarrow> cache_truthy c k"
  by (simp add: cache_truthy_def truthy_def)

lemma cache_inv_step:
  assumes inv: "cache_inv st" and miss: "\<not> cache_truthy (cache st) k"
  shows "cache_inv (st\<lparr>warned := warned st @ [warn_prefix @ k],
                       cache := AList.update k (VBool True) (cache st)\<rparr>)"
proof -
  have fresh: "warn_prefix @ k \<notin> set (warned st)"
  proof
    assume "warn_prefix @ k \<in> set (warned st)"
    with inv obtain k' where "warn_prefix @ k = warn_prefix @ k'"
      and "map_of (cache st) k' = Some (VBool True)" unfolding cache_inv_def by blast
    then have "map_of (cache st) k = Some (VBool True)" by simp
    with miss show False using cache_truthy_own by blast
  qed
  have d: "distinct (warned st @ [warn_prefix @ k])"
    using inv fresh by (simp add: cache_inv_def)
  have old: "\<exists>k'. w = warn_prefix @ k' \<and>
                 map_of (AList.update k (VBool True) (cache st)) k' = Some (VBool True)"
    if "w \<in> set (warned st)" for w
  proof -
    from inv that obtain k' where k': "w = warn_prefix @ k'" "map_of (cache st) k' = Some (VBool True)"
      unfolding cache_inv_def by blast
    then show ?thesis by (intro exI [of _ k']) (simp add: update_conv')
  qed
  have new: "\<exists>k'. warn_prefix @ k = warn_prefix @ k' \<and>
                 map_of (AList.update k (VBool True) (cache st)) k' = Some (VBool True)"
    by (intro exI [of _ k]) (simp add: update_conv')
  have vals: "v = VBool True" if "map_of (AList.update k (VBool True) (cache st)) k' = Some v" for k' v
    using that inv by (cases "k' = k") (simp_all add: update_conv' cache_inv_def)
  show ?thesis
    unfolding cache_inv_def using d old new vals by auto
qed

lemma cache_inv_deprecate: "cache_inv st \<Longrightarrow> cache_inv (deprecate st m t)"
  by (simp add: deprecate_cases cache_inv_step)

lemma cache_inv_all: "cache_inv st \<Longrightarrow> cache_inv (deprecate_all st calls)"
  by (induction st calls rule: deprecate_all.induct) (simp_all add: cache_inv_deprecate)

lemma distinct_count_le_1: "distinct xs \<Longrightarrow> count_list xs x \<le> 1"
  by (induction xs) auto

lemma inherited_name_skipped:
  assumes "cache_inv st" and "k \<in> set Object_prototype_names"
  shows "cache_truthy (cache st) k"
proof (cases "map_of (cache st) k")
  case None
  with assms(2) show ?thesis by (simp add: cache_truthy_def)
next
  case (Some v)
  with assms(1) have "v = VBool True" by (simp add: cache_inv_def)
  with Some show ?thesis by (simp add: cache_truthy_own)
qed

text \<open>
  Claim C9. A truthy \<open>test\<close> leaves the notifier as it is, so nothing is sent; a message
  \<open>{prev, next, url}\<close> is formatted as "prev is going to be removed in the future. Please
  use next instead.", followed by "See: url" when there is a url, and that text is what is
  sent; and in any run of calls from the initial state, no warning is sent twice.
\<close>

theorem deprecate_suppress_format_once:
  "(truthy t \<longrightarrow> deprecate st m t = st) \<and>
   deprecate_format (VStr p) (VStr n) VUndef =
     p @ '' is going to be removed in the future. Please use '' @ n @ '' instead.'' \<and>
   (u \<noteq> [] \<longrightarrow> deprecate_format (VStr p) (VStr n) (VStr u) =
     p @ '' is going to be removed in the future. Please use '' @ n @ '' instead. See: '' @ u) \<and>
   warned (deprecate dstate0 (Obj b) VUndef) =
     [''Deprecation warning: '' @ deprecate_format (member b ''prev'') (member b ''next'') (member b ''url'')] \<and>
   count_list (warned (deprecate_all dstate0 calls)) w \<le> 1"
proof -
  have a: "truthy t \<longrightarrow> deprecate st m t = st"
    by (auto simp: deprecate_def truthy_def)
  have b: "deprecate_format (VStr p) (VStr n) VUndef =
     p @ '' is going to be removed in the future. Please use '' @ n @ '' instead.''"
    by (simp add: deprecate_format_def prim_text_VStr truthy_def)
  have c: "u \<noteq> [] \<longrightarrow> deprecate_format (VStr p) (VStr n) (VStr u) =
     p @ '' is going to be removed in the future. Please use '' @ n @ '' instead. See: '' @ u"
    by (simp add: deprecate_format_def prim_text_VStr truthy_def)
  have d: "warned (deprecate dstate0 (Obj b) VUndef) =
     [''Deprecation warning: '' @ deprecate_format (member b ''prev'') (member b ''next'') (member b ''url'')]"
  proof -
    define f where "f = deprecate_format (member b ''prev'') (member b ''next'') (member b ''url'')"
    have sp: "CHR '' '' \<in> set f" by (simp add: f_def deprecate_format_def)
    then have ne: "f \<noteq> []" by auto
    have "k \<in> set Object_prototype_names \<Longrightarrow> CHR '' '' \<notin> set k" for k
      by (auto simp: Object_prototype_names_def)
    with sp have nin: "f \<notin> set Object_prototype_names" by blast
    have key: "message_key (Obj b) = f"
      using ne by (simp add: message_key_def f_def [symmetric] truthy_def prim_text_VStr Let_def)
    have "\<not> cache_truthy (cache dstate0) f"
      using nin by (simp add: cache_truthy_def dstate0_def)
    then show ?thesis
      by (simp add: deprecate_cases key f_def [symmetric] warn_prefix_def dstate0_def)
  qed
  have e: "count_list (warned (deprecate_all dstate0 calls)) w \<le> 1"
    by (rule distinct_count_le_1) (use cache_inv_all [OF cache_inv0] in \<open>simp add: cache_inv_def\<close>)
  show ?thesis using a b c d e by blast
qed

theorem deprecate_suppress_format_once_witness:
  "truthy (VBool True) \<and>
   deprecate dstate0 (Prim (VStr ''old'')) (VBool True) = dstate0 \<and>
   ''u'' \<noteq> [] \<and>
   deprecate_format (VStr ''p'') (VStr ''n'') (VStr ''u'') =
     ''p is going to be removed in the future. Please use n instead. See: u'' \<and>
   count_list (warned (deprecate_all dstate0 [(Prim (VStr ''old''), VUndef), (Prim (VStr ''old''), VUndef)]))
     ''Deprecation warning: old'' \<le> 1"
  using deprecate_suppress_format_once
    [of "VBool True" dstate0 "Prim (VStr ''old'')" "''p''" "''n''" "''u''" "[]"
        "[(Prim (VStr ''old''), VUndef), (Prim (VStr ''old''), VUndef)]" "''Deprecation warning: old''"]
  by (simp add: truthy_def)

text \<open>
  Claim C10. Some messages are never warned about, not even the first time: the cache is
  a plain object, so a message that is the name of a member inherited from
  \<open>Object.prototype\<close>, such as \<open>constructor\<close> or \<open>toString\<close>, is found in it. This holds
  in the initial state and after any run of calls.
\<close>

theorem deprecate_inherited_name_never_warns:
  "deprecate dstate0 (Prim (VStr ''constructor'')) VUndef = dstate0 \<and>
   deprecate dstate0 (Prim (VStr ''toString'')) VUndef = dstate0 \<and>
   deprecate (deprecate_all dstate0 calls) (Prim (VStr ''constructor'')) t = deprecate_all dstate0 calls \<and>
   deprecate (deprecate_all dstate0 calls) (Prim (VStr ''toString'')) t = deprecate_all dstate0 calls"
proof -
  have inv: "cache_inv (deprecate_all dstate0 calls)" by (simp add: cache_inv_all cache_inv0)
  have kc: "message_key (Prim (VStr ''constructor'')) = ''constructor''"
    by (simp add: message_key_def truthy_def prim_text_VStr)
  have ks: "message_key (Prim (VStr ''toString'')) = ''toString''"
    by (simp add: message_key_def truthy_def prim_text_VStr)
  have c: "cache_truthy (cache (deprecate_all dstate0 calls)) ''constructor''"
    by (rule inherited_name_skipped [OF inv]) (simp add: Object_prototype_names_def)
  have s: "cache_truthy (cache (deprecate_all dstate0 calls)) ''toString''"
    by (rule inherited_name_skipped [OF inv]) (simp add: Object_prototype_names_def)
  have c0: "cache_truthy (cache dstate0) ''constructor''"
    by (rule inherited_name_skipped [OF cache_inv0]) (simp add: Object_prototype_names_def)
  have s0: "cache_truthy (cache dstate0) ''toString''"
    by (rule inherited_name_skipped [OF cache_inv0]) (simp add: Object_prototype_names_def)
  show ?thesis using c s c0 s0
    by (simp add: deprecate_cases kc ks)
qed


end
